theory Spec2Isabelle
  imports Main "HOL-Library.Word" "HOL-Library.Sublist"
begin

unbundle bit_operations_syntax

section \<open>The I2C master driver of lib_i2c.c\<close>

subsection \<open>Data model\<close>

type_synonym u8 = "8 word"
type_synonym u16 = "16 word"
type_synonym u32 = "32 word"

text \<open>The registers of the peripheral I2C1 that the three transaction functions touch.\<close>

datatype reg = CTLR1 | STAR1 | STAR2 | DATAR

text \<open>
  Everything a call does to the outside world, in program order: one event per volatile
  access or per statement on a register, per call of \<open>i2c_status\<close>, and per access
  to the caller's buffer.
  \<^item> \<open>Load r v\<close>: a read of register \<open>r\<close> that returned \<open>v\<close>;
  \<^item> \<open>Store r v\<close>: the statement \<open>r = v\<close>;
  \<^item> \<open>SetBits r m\<close>: the statement \<open>r |= m\<close>;
  \<^item> \<open>ClearBits r m\<close>: the statement \<open>r &= ~m\<close>;
  \<^item> \<open>Status m b\<close>: a call \<open>i2c_status(m)\<close> that returned \<open>b\<close>;
  \<^item> \<open>BufStore i b\<close>: the statement \<open>buf[i] = b\<close>;
  \<^item> \<open>BufLoad i b\<close>: a read of \<open>buf[i]\<close> that returned \<open>b\<close>.
\<close>

datatype event =
    Load reg u16
  | Store reg u16
  | SetBits reg u16
  | ClearBits reg u16
  | Status u32 bool
  | BufStore nat u8
  | BufLoad nat u8

type_synonym trace = "event list"

text \<open>
  The peripheral is volatile: what a read returns is decided by the hardware, and may
  depend on everything that happened before. \<open>reg_value hw tr r\<close> is what a read of
  \<open>r\<close> returns after the history \<open>tr\<close>.

  \<open>i2c_status\<close> is declared in lib_i2c.h, which is not among the sources; the driver
  only uses its result. It is a parameter here: \<open>status_match hw tr m\<close> is what
  \<open>i2c_status(m)\<close> returns after the history \<open>tr\<close>.
\<close>

record hw =
  reg_value :: "trace \<Rightarrow> reg \<Rightarrow> u16"
  status_match :: "trace \<Rightarrow> u32 \<Rightarrow> bool"

text \<open>
  The macros of lib_i2c.h and of the vendor header that the source uses; their values are
  not in the sources, so they are parameters. \<open>I2C_TIMEOUT\<close> initialises an
  \<open>int32_t\<close>.
\<close>

record i2c_defs =
  I2C_TIMEOUT :: u32
  I2C_CTLR1_START :: u16
  I2C_CTLR1_STOP :: u16
  I2C_CTLR1_ACK :: u16
  I2C_STAR1_TXE :: u16
  I2C_STAR1_RXNE :: u16
  I2C_STAR2_BUSY :: u16
  I2C_EVENT_MASTER_MODE_SELECT :: u32
  I2C_EVENT_MASTER_TRANSMITTER_MODE_SELECTED :: u32
  I2C_EVENT_MASTER_RECEIVER_MODE_SELECTED :: u32
  I2C_EVENT_MASTER_BYTE_TRANSMITTED :: u32

datatype i2c_err_t = I2C_OK | I2C_ERR_NACK | I2C_ERR_TIMEOUT

subsection \<open>Register accesses\<close>

definition load :: "hw \<Rightarrow> reg \<Rightarrow> trace \<Rightarrow> u16 \<times> trace" where
  "load h r tr = (reg_value h tr r, tr @ [Load r (reg_value h tr r)])"

definition store :: "reg \<Rightarrow> u16 \<Rightarrow> trace \<Rightarrow> trace" where
  "store r v tr = tr @ [Store r v]"

definition set_bits :: "reg \<Rightarrow> u16 \<Rightarrow> trace \<Rightarrow> trace" where
  "set_bits r m tr = tr @ [SetBits r m]"

definition clear_bits :: "reg \<Rightarrow> u16 \<Rightarrow> trace \<Rightarrow> trace" where
  "clear_bits r m tr = tr @ [ClearBits r m]"

definition i2c_status :: "hw \<Rightarrow> u32 \<Rightarrow> trace \<Rightarrow> bool \<times> trace" where
  "i2c_status h status_mask tr =
     (status_match h tr status_mask,
      tr @ [Status status_mask (status_match h tr status_mask)])"

subsection \<open>The wait loops\<close>

text \<open>
  \<^verbatim>\<open>while(I2C1->STAR2 & I2C_STAR2_BUSY) if(--timeout < 0) return I2C_ERR_TIMEOUT;\<close>
  The result is \<open>False\<close> when the loop left through the \<open>return\<close>. \<open>timeout\<close> is
  an \<open>int32_t\<close>: the decrement is on 32 bits and the comparison is signed.
\<close>

function wait_not_busy :: "i2c_defs \<Rightarrow> hw \<Rightarrow> u32 \<Rightarrow> trace \<Rightarrow> bool \<times> trace" where
  "wait_not_busy c h timeout tr =
     (case load h STAR2 tr of
        (v, tr1) \<Rightarrow>
          if v AND I2C_STAR2_BUSY c \<noteq> 0
          then (if timeout - 1 <s 0 then (False, tr1)
                else wait_not_busy c h (timeout - 1) tr1)
          else (True, tr1))"
  by pat_completeness auto

lemma countdown_less: "\<not> ((t::u32) - 1 <s 0) \<Longrightarrow> unat (t - 1) < unat t"
proof -
  assume a: "\<not> (t - 1 <s 0)"
  have "t \<noteq> 0"
  proof
    assume "t = 0"
    with a show False by (simp add: word_sless_alt)
  qed
  then show ?thesis
    by (simp add: unat_minus_one unat_gt_0)
qed

termination wait_not_busy
  by (relation "measure (\<lambda>(c, h, t, tr). unat t)") (auto simp: countdown_less)

text \<open>
  \<^verbatim>\<open>while(!i2c_status(EVENT)) { if(--timeout < 0) <leave>; }\<close>
  the bounded poll of an address phase. The result is \<open>False\<close> when the loop was left
  because the counter went negative (\<open>break\<close> in \<open>i2c_ping\<close>, \<open>return I2C_ERR_NACK\<close>
  in \<open>i2c_read\<close> and \<open>i2c_write\<close>).
\<close>

function wait_ack :: "hw \<Rightarrow> u32 \<Rightarrow> u32 \<Rightarrow> trace \<Rightarrow> bool \<times> trace" where
  "wait_ack h ev timeout tr =
     (case i2c_status h ev tr of
        (True, tr1) \<Rightarrow> (True, tr1)
      | (False, tr1) \<Rightarrow>
          if timeout - 1 <s 0 then (False, tr1)
          else wait_ack h ev (timeout - 1) tr1)"
  by pat_completeness auto
termination
  by (relation "measure (\<lambda>(h, ev, t, tr). unat t)") (auto simp: countdown_less)

text \<open>
  \<^verbatim>\<open>while(!i2c_status(EVENT));\<close>
  has no bound in the source. The model gives it \<open>fuel\<close> polls: the result is
  \<open>False\<close> when the event was not reported within \<open>fuel\<close> polls, that is, when the
  call is still spinning there; the trace then holds what happened so far.
\<close>

fun wait_event :: "hw \<Rightarrow> u32 \<Rightarrow> nat \<Rightarrow> trace \<Rightarrow> bool \<times> trace" where
  "wait_event h ev 0 tr = (False, tr)"
| "wait_event h ev (Suc fuel) tr =
     (case i2c_status h ev tr of
        (True, tr1) \<Rightarrow> (True, tr1)
      | (False, tr1) \<Rightarrow> wait_event h ev fuel tr1)"

text \<open>
  \<^verbatim>\<open>while(!(I2C1->STAR1 & FLAG));\<close>
  likewise unbounded in the source, with \<open>fuel\<close> polls in the model.
\<close>

fun wait_flag :: "hw \<Rightarrow> u16 \<Rightarrow> nat \<Rightarrow> trace \<Rightarrow> bool \<times> trace" where
  "wait_flag h flag 0 tr = (False, tr)"
| "wait_flag h flag (Suc fuel) tr =
     (case load h STAR1 tr of
        (v, tr1) \<Rightarrow>
          if v AND flag \<noteq> 0 then (True, tr1)
          else wait_flag h flag fuel tr1)"

subsection \<open>\<open>i2c_ping\<close>\<close>

text \<open>
  The result of a call is \<open>Some e\<close> when it returned \<open>e\<close>, and \<open>None\<close> when
  it is still spinning in an unbounded wait after \<open>fuel\<close> polls there. The trace is
  the history before the call, extended by what the call did.
\<close>

definition i2c_ping :: "i2c_defs \<Rightarrow> hw \<Rightarrow> nat \<Rightarrow> u8 \<Rightarrow> trace \<Rightarrow> i2c_err_t option \<times> trace" where
  "i2c_ping c h fuel addr tr =
     (case wait_not_busy c h (I2C_TIMEOUT c) tr of
        (False, tr1) \<Rightarrow> (Some I2C_ERR_TIMEOUT, tr1)
      | (True, tr1) \<Rightarrow>
     (case wait_event h (I2C_EVENT_MASTER_MODE_SELECT c) fuel
             (set_bits CTLR1 (I2C_CTLR1_START c) tr1) of
        (False, tr2) \<Rightarrow> (None, tr2)
      | (True, tr2) \<Rightarrow>
     (case wait_ack h (I2C_EVENT_MASTER_TRANSMITTER_MODE_SELECTED c) (I2C_TIMEOUT c)
             (store DATAR (ucast (addr AND 0xFE)) tr2) of
        (acked, tr3) \<Rightarrow>
          (Some (if acked then I2C_OK else I2C_ERR_NACK),
           set_bits CTLR1 (I2C_CTLR1_STOP c) tr3))))"

subsection \<open>\<open>i2c_read\<close>\<close>

text \<open>
  The caller's buffer is the memory at \<open>buf\<close>, indexed by the offset from it.
  The loop keeps \<open>cbyte\<close> in a \<open>uint8_t\<close>.
\<close>

lemma u8_less_Suc: "(cbyte::u8) < len \<Longrightarrow> unat (cbyte + 1) = Suc (unat cbyte)"
proof -
  assume "cbyte < len"
  then have "unat cbyte < unat len"
    by (simp add: word_less_nat_alt)
  moreover have "unat len < 256"
    using unsigned_less [of len, where ?'a = nat] by simp
  ultimately have "unat cbyte + 1 < 256"
    by arith
  then show ?thesis
    by (simp add: unat_word_ariths)
qed

function read_bytes ::
  "i2c_defs \<Rightarrow> hw \<Rightarrow> nat \<Rightarrow> u8 \<Rightarrow> u8 \<Rightarrow> trace \<times> (nat \<Rightarrow> u8) \<Rightarrow> bool \<times> trace \<times> (nat \<Rightarrow> u8)"
where
  "read_bytes c h fuel len cbyte (tr, buf) =
     (if cbyte < len then
        (case wait_flag h (I2C_STAR1_RXNE c) fuel
                (if cbyte = len then clear_bits CTLR1 (I2C_CTLR1_ACK c) tr else tr) of
           (False, tr1) \<Rightarrow> (False, tr1, buf)
         | (True, tr1) \<Rightarrow>
             (case load h DATAR tr1 of
                (v, tr2) \<Rightarrow>
                  read_bytes c h fuel len (cbyte + 1)
                    (tr2 @ [BufStore (unat cbyte) (ucast v)], buf(unat cbyte := ucast v))))
      else (True, tr, buf))"
  by pat_completeness auto
termination
  by (relation "measure (\<lambda>(c, h, fuel, len, cbyte, s). unat len - unat cbyte)")
     (auto simp: u8_less_Suc word_less_nat_alt)

definition i2c_read ::
  "i2c_defs \<Rightarrow> hw \<Rightarrow> nat \<Rightarrow> u8 \<Rightarrow> u8 \<Rightarrow> u8 \<Rightarrow> trace \<times> (nat \<Rightarrow> u8)
     \<Rightarrow> i2c_err_t option \<times> trace \<times> (nat \<Rightarrow> u8)"
where
  "i2c_read c h fuel addr reg len s =
     (case s of (tr, buf) \<Rightarrow>
     (case wait_not_busy c h (I2C_TIMEOUT c) tr of
        (False, tr1) \<Rightarrow> (Some I2C_ERR_TIMEOUT, tr1, buf)
      | (True, tr1) \<Rightarrow>
     (case wait_event h (I2C_EVENT_MASTER_MODE_SELECT c) fuel
             (set_bits CTLR1 (I2C_CTLR1_START c) tr1) of
        (False, tr2) \<Rightarrow> (None, tr2, buf)
      | (True, tr2) \<Rightarrow>
     (case wait_ack h (I2C_EVENT_MASTER_TRANSMITTER_MODE_SELECTED c) (I2C_TIMEOUT c)
             (store DATAR (ucast (addr AND 0xFE)) tr2) of
        (False, tr3) \<Rightarrow> (Some I2C_ERR_NACK, tr3, buf)
      | (True, tr3) \<Rightarrow>
     (case wait_flag h (I2C_STAR1_TXE c) fuel (store DATAR (ucast reg) tr3) of
        (False, tr4) \<Rightarrow> (None, tr4, buf)
      | (True, tr4) \<Rightarrow>
     (case wait_event h (I2C_EVENT_MASTER_MODE_SELECT c) fuel
             (set_bits CTLR1 (I2C_CTLR1_START c)
                (if 1 < len then set_bits CTLR1 (I2C_CTLR1_ACK c) tr4 else tr4)) of
        (False, tr5) \<Rightarrow> (None, tr5, buf)
      | (True, tr5) \<Rightarrow>
     (case wait_ack h (I2C_EVENT_MASTER_RECEIVER_MODE_SELECTED c) (I2C_TIMEOUT c)
             (store DATAR (ucast (addr OR 0x01)) tr5) of
        (False, tr6) \<Rightarrow> (Some I2C_ERR_NACK, tr6, buf)
      | (True, tr6) \<Rightarrow>
     (case read_bytes c h fuel len 0 (tr6, buf) of
        (False, tr7, buf7) \<Rightarrow> (None, tr7, buf7)
      | (True, tr7, buf7) \<Rightarrow>
          (Some I2C_OK, set_bits CTLR1 (I2C_CTLR1_STOP c) tr7, buf7)))))))))"

subsection \<open>\<open>i2c_write\<close>\<close>

function write_bytes ::
  "i2c_defs \<Rightarrow> hw \<Rightarrow> nat \<Rightarrow> (nat \<Rightarrow> u8) \<Rightarrow> u8 \<Rightarrow> u8 \<Rightarrow> trace \<Rightarrow> bool \<times> trace"
where
  "write_bytes c h fuel buf len cbyte tr =
     (if cbyte < len then
        (case wait_flag h (I2C_STAR1_TXE c) fuel tr of
           (False, tr1) \<Rightarrow> (False, tr1)
         | (True, tr1) \<Rightarrow>
             write_bytes c h fuel buf len (cbyte + 1)
               (store DATAR (ucast (buf (unat cbyte)))
                  (tr1 @ [BufLoad (unat cbyte) (buf (unat cbyte))])))
      else (True, tr))"
  by pat_completeness auto
termination
  by (relation "measure (\<lambda>(c, h, fuel, buf, len, cbyte, tr). unat len - unat cbyte)")
     (auto simp: u8_less_Suc word_less_nat_alt)

definition i2c_write ::
  "i2c_defs \<Rightarrow> hw \<Rightarrow> nat \<Rightarrow> u8 \<Rightarrow> u8 \<Rightarrow> (nat \<Rightarrow> u8) \<Rightarrow> u8 \<Rightarrow> trace
     \<Rightarrow> i2c_err_t option \<times> trace"
where
  "i2c_write c h fuel addr reg buf len tr =
     (case wait_not_busy c h (I2C_TIMEOUT c) tr of
        (False, tr1) \<Rightarrow> (Some I2C_ERR_TIMEOUT, tr1)
      | (True, tr1) \<Rightarrow>
     (case wait_event h (I2C_EVENT_MASTER_MODE_SELECT c) fuel
             (set_bits CTLR1 (I2C_CTLR1_START c) tr1) of
        (False, tr2) \<Rightarrow> (None, tr2)
      | (True, tr2) \<Rightarrow>
     (case wait_ack h (I2C_EVENT_MASTER_TRANSMITTER_MODE_SELECTED c) (I2C_TIMEOUT c)
             (store DATAR (ucast (addr AND 0xFE)) tr2) of
        (False, tr3) \<Rightarrow> (Some I2C_ERR_NACK, tr3)
      | (True, tr3) \<Rightarrow>
     (case wait_flag h (I2C_STAR1_TXE c) fuel (store DATAR (ucast reg) tr3) of
        (False, tr4) \<Rightarrow> (None, tr4)
      | (True, tr4) \<Rightarrow>
     (case write_bytes c h fuel buf len 0 tr4 of
        (False, tr5) \<Rightarrow> (None, tr5)
      | (True, tr5) \<Rightarrow>
     (case wait_event h (I2C_EVENT_MASTER_BYTE_TRANSMITTED c) fuel tr5 of
        (False, tr6) \<Rightarrow> (None, tr6)
      | (True, tr6) \<Rightarrow>
          (Some I2C_OK, set_bits CTLR1 (I2C_CTLR1_STOP c) tr6)))))))"

subsection \<open>Observing a trace\<close>

text \<open>
  Polls are the events that only look at the status of the peripheral: the calls of
  \<open>i2c_status\<close> and the reads of the two status registers. The actions of a trace are
  its other events, in order.
\<close>

fun is_poll :: "event \<Rightarrow> bool" where
  "is_poll (Status ev b) = True"
| "is_poll (Load r v) = (r = STAR1 \<or> r = STAR2)"
| "is_poll (Store r v) = False"
| "is_poll (SetBits r m) = False"
| "is_poll (ClearBits r m) = False"
| "is_poll (BufStore i b) = False"
| "is_poll (BufLoad i b) = False"

definition actions :: "trace \<Rightarrow> trace" where
  "actions tr = filter (\<lambda>e. \<not> is_poll e) tr"

text \<open>The values stored to the data register, in order.\<close>

fun data_writes :: "trace \<Rightarrow> u16 list" where
  "data_writes [] = []"
| "data_writes (Store r v # tr) = (if r = DATAR then v # data_writes tr else data_writes tr)"
| "data_writes (e # tr) = data_writes tr"

text \<open>The statements that write a register: \<open>r = v\<close>, \<open>r |= m\<close> and \<open>r &= ~m\<close>.\<close>

fun writes_reg :: "reg \<Rightarrow> event \<Rightarrow> bool" where
  "writes_reg r (Store r' v) = (r' = r)"
| "writes_reg r (SetBits r' m) = (r' = r)"
| "writes_reg r (ClearBits r' m) = (r' = r)"
| "writes_reg r (Load r' v) = False"
| "writes_reg r (Status ev b) = False"
| "writes_reg r (BufStore i b) = False"
| "writes_reg r (BufLoad i b) = False"

text \<open>The statements on the control register \<open>CTLR1\<close>, in order.\<close>

definition control_writes :: "trace \<Rightarrow> trace" where
  "control_writes tr = filter (writes_reg CTLR1) tr"

text \<open>The values read from the data register, in order.\<close>

fun data_reads :: "trace \<Rightarrow> u16 list" where
  "data_reads [] = []"
| "data_reads (Load r v # tr) = (if r = DATAR then v # data_reads tr else data_reads tr)"
| "data_reads (e # tr) = data_reads tr"

text \<open>The stores to the caller's buffer, in order, as pairs of index and byte.\<close>

fun buffer_writes :: "trace \<Rightarrow> (nat \<times> u8) list" where
  "buffer_writes [] = []"
| "buffer_writes (BufStore i b # tr) = (i, b) # buffer_writes tr"
| "buffer_writes (e # tr) = buffer_writes tr"


text \<open>
  What receiving the values \<open>vs\<close> into the buffer from index \<open>i\<close> on looks like:
  the events, and the buffer afterwards.
\<close>

fun rx_events :: "nat \<Rightarrow> u16 list \<Rightarrow> trace" where
  "rx_events i [] = []"
| "rx_events i (v # vs) = Load DATAR v # BufStore i (ucast v) # rx_events (Suc i) vs"

fun rx_buffer :: "nat \<Rightarrow> u16 list \<Rightarrow> (nat \<Rightarrow> u8) \<Rightarrow> (nat \<Rightarrow> u8)" where
  "rx_buffer i [] buf = buf"
| "rx_buffer i (v # vs) buf = rx_buffer (Suc i) vs (buf(i := ucast v))"

text \<open>What sending \<open>n\<close> bytes of the buffer from index \<open>i\<close> on looks like.\<close>

fun tx_events :: "(nat \<Rightarrow> u8) \<Rightarrow> nat \<Rightarrow> nat \<Rightarrow> trace" where
  "tx_events buf i 0 = []"
| "tx_events buf i (Suc n) =
     BufLoad i (buf i) # Store DATAR (ucast (buf i)) # tx_events buf (Suc i) n"

subsection \<open>Examples of a configuration and of hardware\<close>

text \<open>
  A configuration with the bit masks of the CH32V003 and a given time-out, and three
  simulated peripherals: a bus that is busy for ever; an idle bus on which the start
  condition is reported but no device answers; and a device that answers every poll at
  once and whose data register reads as the number of events so far.
\<close>

definition example_defs :: "u32 \<Rightarrow> i2c_defs" where
  "example_defs tmo =
     \<lparr>I2C_TIMEOUT = tmo,
      I2C_CTLR1_START = 0x0100,
      I2C_CTLR1_STOP = 0x0200,
      I2C_CTLR1_ACK = 0x0400,
      I2C_STAR1_TXE = 0x0080,
      I2C_STAR1_RXNE = 0x0040,
      I2C_STAR2_BUSY = 0x0002,
      I2C_EVENT_MASTER_MODE_SELECT = 0x00030001,
      I2C_EVENT_MASTER_TRANSMITTER_MODE_SELECTED = 0x00070082,
      I2C_EVENT_MASTER_RECEIVER_MODE_SELECTED = 0x00030002,
      I2C_EVENT_MASTER_BYTE_TRANSMITTED = 0x00070084\<rparr>"

definition hw_stuck_busy :: hw where
  "hw_stuck_busy = \<lparr>reg_value = (\<lambda>tr r. 0x0002), status_match = (\<lambda>tr ev. False)\<rparr>"

definition hw_no_device :: hw where
  "hw_no_device =
     \<lparr>reg_value = (\<lambda>tr r. 0), status_match = (\<lambda>tr ev. ev = 0x00030001)\<rparr>"


definition hw_device :: hw where
  "hw_device =
     \<lparr>reg_value = (\<lambda>tr r. case r of STAR1 \<Rightarrow> 0x00C0 | STAR2 \<Rightarrow> 0 | CTLR1 \<Rightarrow> 0
                                  | DATAR \<Rightarrow> of_nat (length tr)),
      status_match = (\<lambda>tr ev. True)\<rparr>"

section \<open>Lemmas\<close>

text \<open>
  The loops are unfolded one iteration at a time, where a proof asks for it.
\<close>

declare wait_not_busy.simps [simp del] wait_ack.simps [simp del]
  read_bytes.simps [simp del] write_bytes.simps [simp del]

subsection \<open>Facts about the observations\<close>

lemma actions_Nil [simp]: "actions [] = []"
  by (simp add: actions_def)

lemma actions_Cons [simp]:
  "actions (e # tr) = (if is_poll e then actions tr else e # actions tr)"
  by (simp add: actions_def)

lemma actions_append [simp]: "actions (xs @ ys) = actions xs @ actions ys"
  by (simp add: actions_def)

lemma actions_status_polls [simp]: "actions (replicate k (Status ev b)) = []"
  by (induction k) simp_all

lemma actions_star1_polls [simp]: "actions (map (Load STAR1) vs) = []"
  by (induction vs) simp_all

lemma actions_star2_polls [simp]: "actions (map (Load STAR2) vs) = []"
  by (induction vs) simp_all

lemma set_actions: "\<not> is_poll e \<Longrightarrow> e \<in> set (actions tr) \<longleftrightarrow> e \<in> set tr"
  by (auto simp: actions_def)

lemma control_writes_simps [simp]:
  "control_writes [] = []"
  "control_writes (e # tr) = (if writes_reg CTLR1 e then e # control_writes tr else control_writes tr)"
  "control_writes (xs @ ys) = control_writes xs @ control_writes ys"
  by (simp_all add: control_writes_def)

lemma control_writes_actions: "control_writes (actions tr) = control_writes tr"
  by (induction tr rule: data_writes.induct) auto

lemma data_writes_append [simp]: "data_writes (xs @ ys) = data_writes xs @ data_writes ys"
  by (induction xs rule: data_writes.induct) simp_all

lemma data_writes_actions: "data_writes (actions tr) = data_writes tr"
  by (induction tr rule: data_writes.induct) auto

subsection \<open>What the wait loops add to the trace\<close>

lemma sint_dec: "0 \<le>s (t::u32) \<Longrightarrow> sint (t - 1) = sint t - 1"
proof -
  assume "0 \<le>s t"
  then have lo: "0 \<le> sint t"
    by (simp add: word_sle_eq)
  have hi: "sint t < 2 ^ 31"
    using sint_lt [of t] by simp
  have "sint (t - 1) = signed_take_bit 31 (sint t - 1)"
    by (simp add: sint_word_ariths)
  also have "\<dots> = sint t - 1"
    using lo hi by (simp add: signed_take_bit_int_eq_self)
  finally show ?thesis .
qed

lemma countdown_last: "0 \<le>s (t::u32) \<Longrightarrow> t - 1 <s 0 \<Longrightarrow> sint t = 0"
proof -
  assume a: "0 \<le>s t" and b: "t - 1 <s 0"
  from a have "0 \<le> sint t" by (simp add: word_sle_eq)
  moreover from b have "sint t - 1 < 0"
    using sint_dec [OF a] by (simp add: word_sless_alt)
  ultimately show "sint t = 0" by arith
qed

lemma countdown_next:
  "0 \<le>s (t::u32) \<Longrightarrow> \<not> t - 1 <s 0 \<Longrightarrow> 0 \<le>s t - 1 \<and> nat (sint t) = Suc (nat (sint (t - 1)))"
proof -
  assume a: "0 \<le>s t" and b: "\<not> t - 1 <s 0"
  from b have "0 \<le> sint (t - 1)" by (simp add: word_sless_alt)
  then show ?thesis
    using sint_dec [OF a] by (simp add: word_sle_eq)
qed

lemma wait_not_busy_trace:
  "wait_not_busy c h t tr = (b, tr') \<Longrightarrow> \<exists>vs. tr' = tr @ map (Load STAR2) vs"
proof (induction c h t tr arbitrary: b tr' rule: wait_not_busy.induct)
  case (1 c h timeout tr)
  show ?case
  proof (cases "reg_value h tr STAR2 AND I2C_STAR2_BUSY c \<noteq> 0 \<and> \<not> timeout - 1 <s 0")
    case True
    then have "wait_not_busy c h (timeout - 1) (tr @ [Load STAR2 (reg_value h tr STAR2)]) = (b, tr')"
      using "1.prems" by (subst (asm) wait_not_busy.simps) (simp add: load_def)
    from "1.IH" [OF _ _ _ this] True
    obtain vs where "tr' = (tr @ [Load STAR2 (reg_value h tr STAR2)]) @ map (Load STAR2) vs"
      by (auto simp: load_def)
    then have "tr' = tr @ map (Load STAR2) (reg_value h tr STAR2 # vs)"
      by simp
    then show ?thesis by blast
  next
    case False
    then have "tr' = tr @ map (Load STAR2) [reg_value h tr STAR2]"
      using "1.prems" by (subst (asm) wait_not_busy.simps) (auto simp: load_def split: if_splits)
    then show ?thesis by blast
  qed
qed

lemma wait_not_busy_stuck:
  "\<forall>t. reg_value h t STAR2 AND I2C_STAR2_BUSY c \<noteq> 0 \<Longrightarrow>
     \<exists>vs. wait_not_busy c h t tr = (False, tr @ map (Load STAR2) vs) \<and>
          (0 \<le>s t \<longrightarrow> length vs = Suc (nat (sint t)))"
proof (induction c h t tr rule: wait_not_busy.induct)
  case (1 c h timeout tr)
  note busy = "1.prems"
  let ?v = "reg_value h tr STAR2"
  show ?case
  proof (cases "timeout - 1 <s 0")
    case True
    have "wait_not_busy c h timeout tr = (False, tr @ map (Load STAR2) [?v])"
      using True busy by (subst wait_not_busy.simps) (simp add: load_def)
    moreover have "0 \<le>s timeout \<longrightarrow> length [?v] = Suc (nat (sint timeout))"
      using True by (simp add: countdown_last)
    ultimately show ?thesis by blast
  next
    case False
    have "\<exists>vs. wait_not_busy c h (timeout - 1) (tr @ [Load STAR2 ?v]) =
              (False, (tr @ [Load STAR2 ?v]) @ map (Load STAR2) vs) \<and>
            (0 \<le>s timeout - 1 \<longrightarrow> length vs = Suc (nat (sint (timeout - 1))))"
      using "1.IH" [of ?v "tr @ [Load STAR2 ?v]"] False busy by (simp add: load_def)
    then obtain vs where
      run: "wait_not_busy c h (timeout - 1) (tr @ [Load STAR2 ?v]) =
              (False, (tr @ [Load STAR2 ?v]) @ map (Load STAR2) vs)"
      and len: "0 \<le>s timeout - 1 \<longrightarrow> length vs = Suc (nat (sint (timeout - 1)))"
      by blast
    have "wait_not_busy c h timeout tr = (False, tr @ map (Load STAR2) (?v # vs))"
      using False busy run by (subst wait_not_busy.simps) (simp add: load_def)
    moreover have "0 \<le>s timeout \<longrightarrow> length (?v # vs) = Suc (nat (sint timeout))"
      using len countdown_next [OF _ False] by auto
    ultimately show ?thesis by blast
  qed
qed

lemma wait_ack_trace:
  "wait_ack h ev t tr = (b, tr') \<Longrightarrow>
     \<exists>k. tr' = tr @ replicate k (Status ev False) @ (if b then [Status ev True] else []) \<and>
         (b \<or> 0 < k)"
proof (induction h ev t tr arbitrary: b tr' rule: wait_ack.induct)
  case (1 h ev timeout tr)
  show ?case
  proof (cases "\<not> status_match h tr ev \<and> \<not> timeout - 1 <s 0")
    case True
    then have "wait_ack h ev (timeout - 1) (tr @ [Status ev False]) = (b, tr')"
      using "1.prems" by (subst (asm) wait_ack.simps) (simp add: i2c_status_def)
    from "1.IH" [OF _ _ _ this] True
    obtain k where "tr' = (tr @ [Status ev False]) @ replicate k (Status ev False) @ (if b then [Status ev True] else [])"
      by (auto simp: i2c_status_def)
    then have "tr' = tr @ replicate (Suc k) (Status ev False) @ (if b then [Status ev True] else []) \<and> (b \<or> 0 < Suc k)"
      by simp
    then show ?thesis by blast
  next
    case False
    then have "tr' = tr @ replicate (if b then 0 else 1) (Status ev False) @ (if b then [Status ev True] else [])
        \<and> (b \<or> 0 < (if b then 0 else (1::nat)))"
      using "1.prems" by (subst (asm) wait_ack.simps) (auto simp: i2c_status_def split: if_splits bool.splits)
    then show ?thesis by blast
  qed
qed


lemma wait_event_trace:
  "wait_event h ev fuel tr = (b, tr') \<Longrightarrow>
     \<exists>k. tr' = tr @ replicate k (Status ev False) @ (if b then [Status ev True] else [])"
proof (induction fuel arbitrary: tr)
  case 0
  then have "tr' = tr @ replicate 0 (Status ev False) @ (if b then [Status ev True] else [])"
    by auto
  then show ?case by blast
next
  case (Suc fuel)
  show ?case
  proof (cases "status_match h tr ev")
    case True
    with Suc.prems have "tr' = tr @ replicate 0 (Status ev False) @ (if b then [Status ev True] else [])"
      by (auto simp: i2c_status_def)
    then show ?thesis by blast
  next
    case False
    with Suc.prems have "wait_event h ev fuel (tr @ [Status ev False]) = (b, tr')"
      by (simp add: i2c_status_def)
    from Suc.IH [OF this] obtain k where
      "tr' = (tr @ [Status ev False]) @ replicate k (Status ev False) @ (if b then [Status ev True] else [])"
      by blast
    then have "tr' = tr @ replicate (Suc k) (Status ev False) @ (if b then [Status ev True] else [])"
      by simp
    then show ?thesis by blast
  qed
qed

lemma wait_flag_trace:
  "wait_flag h flag fuel tr = (b, tr') \<Longrightarrow>
     \<exists>vs. tr' = tr @ map (Load STAR1) vs \<and> (b \<longrightarrow> vs \<noteq> [] \<and> last vs AND flag \<noteq> 0)"
proof (induction fuel arbitrary: tr)
  case 0
  then have "tr' = tr @ map (Load STAR1) [] \<and> \<not> b" by auto
  then show ?case by blast
next
  case (Suc fuel)
  let ?v = "reg_value h tr STAR1"
  show ?case
  proof (cases "?v AND flag \<noteq> 0")
    case True
    with Suc.prems have "tr' = tr @ map (Load STAR1) [?v] \<and> [?v] \<noteq> [] \<and> last [?v] AND flag \<noteq> 0"
      by (auto simp: load_def)
    then show ?thesis by blast
  next
    case False
    with Suc.prems have "wait_flag h flag fuel (tr @ [Load STAR1 ?v]) = (b, tr')"
      by (simp add: load_def)
    from Suc.IH [OF this] obtain vs where
      "tr' = (tr @ [Load STAR1 ?v]) @ map (Load STAR1) vs" "b \<longrightarrow> vs \<noteq> [] \<and> last vs AND flag \<noteq> 0"
      by blast
    then have "tr' = tr @ map (Load STAR1) (?v # vs) \<and>
        (b \<longrightarrow> ?v # vs \<noteq> [] \<and> last (?v # vs) AND flag \<noteq> 0)"
      by simp
    then show ?thesis by blast
  qed
qed

subsection \<open>The shape of a call of \<open>i2c_ping\<close>\<close>

lemma i2c_ping_actions:
  "i2c_ping c h fuel addr tr = (r, tr') \<Longrightarrow>
     \<exists>evs. tr' = tr @ evs \<and>
       (r = Some I2C_ERR_TIMEOUT \<and> actions evs = [] \<or>
        r = None \<and> actions evs = [SetBits CTLR1 (I2C_CTLR1_START c)] \<or>
        (r = Some I2C_OK \<or> r = Some I2C_ERR_NACK) \<and>
          actions evs = [SetBits CTLR1 (I2C_CTLR1_START c), Store DATAR (ucast (addr AND 0xFE)),
                         SetBits CTLR1 (I2C_CTLR1_STOP c)])"
  unfolding i2c_ping_def set_bits_def store_def
  by (auto split: prod.splits bool.splits
      dest!: wait_not_busy_trace wait_event_trace wait_ack_trace)

lemma data_reads_append [simp]: "data_reads (xs @ ys) = data_reads xs @ data_reads ys"
  by (induction xs rule: data_reads.induct) simp_all

lemma data_reads_actions: "data_reads (actions tr) = data_reads tr"
  by (induction tr rule: data_reads.induct) auto

lemma buffer_writes_append [simp]:
  "buffer_writes (xs @ ys) = buffer_writes xs @ buffer_writes ys"
  by (induction xs rule: buffer_writes.induct) simp_all

lemma buffer_writes_actions: "buffer_writes (actions tr) = buffer_writes tr"
  by (induction tr rule: buffer_writes.induct) auto


lemma data_reads_rx_events [simp]: "data_reads (rx_events i vs) = vs"
  by (induction i vs rule: rx_events.induct) simp_all

lemma data_writes_rx_events [simp]: "data_writes (rx_events i vs) = []"
  by (induction i vs rule: rx_events.induct) simp_all

lemma control_writes_rx_events [simp]: "control_writes (rx_events i vs) = []"
  by (induction i vs rule: rx_events.induct) simp_all

lemma buffer_writes_rx_events [simp]:
  "buffer_writes (rx_events i vs) = zip [i..<i + length vs] (map ucast vs)"
proof (induction i vs rule: rx_events.induct)
  case (1 i)
  then show ?case by simp
next
  case (2 i v vs)
  then show ?case by (simp add: upt_conv_Cons del: upt_Suc)
qed

lemma rx_buffer_apply:
  "rx_buffer i vs buf j = (if i \<le> j \<and> j < i + length vs then ucast (vs ! (j - i)) else buf j)"
proof (induction i vs buf rule: rx_buffer.induct)
  case (1 i buf)
  then show ?case by auto
next
  case (2 i v vs buf)
  have "rx_buffer i (v # vs) buf j = rx_buffer (Suc i) vs (buf(i := ucast v)) j"
    by simp
  also have "\<dots> = (if Suc i \<le> j \<and> j < Suc i + length vs then ucast (vs ! (j - Suc i))
                    else (buf(i := ucast v)) j)"
    by (rule "2.IH")
  also have "\<dots> = (if i \<le> j \<and> j < i + length (v # vs) then ucast ((v # vs) ! (j - i))
                    else buf j)"
    by (auto simp: nth_Cons' Suc_diff_le)
  finally show ?case .
qed

lemma data_writes_tx_events [simp]:
  "data_writes (tx_events buf i n) = map (\<lambda>j. ucast (buf j)) [i..<i + n]"
proof (induction buf i n rule: tx_events.induct)
  case (1 buf i)
  then show ?case by simp
next
  case (2 buf i n)
  then show ?case by (simp add: upt_conv_Cons del: upt_Suc)
qed

lemma control_writes_tx_events [simp]: "control_writes (tx_events buf i n) = []"
  by (induction buf i n rule: tx_events.induct) simp_all

subsection \<open>What the byte loops add to the trace\<close>

lemma read_bytes_trace:
  "read_bytes c h fuel len cbyte (tr, buf) = (b, tr', buf') \<Longrightarrow>
     \<exists>evs rx. tr' = tr @ evs \<and> actions evs = rx_events (unat cbyte) rx \<and>
       buf' = rx_buffer (unat cbyte) rx buf \<and>
       (if b then length rx = unat len - unat cbyte else length rx < unat len - unat cbyte)"
proof (induction c h fuel len cbyte "(tr, buf)" arbitrary: tr buf rule: read_bytes.induct)
  case (1 c h fuel len cbyte tr buf)
  note run = "1.prems"
  show ?case
  proof (cases "cbyte < len")
    case False
    then have "unat len - unat cbyte = 0"
      by (simp add: word_less_nat_alt)
    moreover from run False have "b" "tr' = tr" "buf' = buf"
      by (subst (asm) read_bytes.simps, simp)+
    ultimately have "tr' = tr @ [] \<and> actions [] = rx_events (unat cbyte) [] \<and>
       buf' = rx_buffer (unat cbyte) [] buf \<and>
       (if b then length ([]::u16 list) = unat len - unat cbyte
        else length ([]::u16 list) < unat len - unat cbyte)"
      by simp
    then show ?thesis by blast
  next
    case True
    then have ne: "cbyte \<noteq> len" and pos: "0 < unat len - unat cbyte"
      by (auto simp: word_less_nat_alt)
    obtain bf tr1 where wf: "wait_flag h (I2C_STAR1_RXNE c) fuel tr = (bf, tr1)"
      by (cases "wait_flag h (I2C_STAR1_RXNE c) fuel tr")
    from wait_flag_trace [OF wf] obtain vs where tr1: "tr1 = tr @ map (Load STAR1) vs"
      by blast
    show ?thesis
    proof (cases bf)
      case False
      with run True ne wf have "\<not> b" "tr' = tr1" "buf' = buf"
        by (subst (asm) read_bytes.simps, simp)+
      with tr1 pos have "tr' = tr @ map (Load STAR1) vs \<and>
         actions (map (Load STAR1) vs) = rx_events (unat cbyte) [] \<and>
         buf' = rx_buffer (unat cbyte) [] buf \<and>
         (if b then length ([]::u16 list) = unat len - unat cbyte
          else length ([]::u16 list) < unat len - unat cbyte)"
        by simp
      then show ?thesis by blast
    next
      case bt: True
      let ?v = "reg_value h tr1 DATAR"
      let ?tr2 = "(tr1 @ [Load DATAR ?v]) @ [BufStore (unat cbyte) (ucast ?v)]"
      let ?buf2 = "buf(unat cbyte := ucast ?v)"
      from run True ne wf bt
      have rec: "read_bytes c h fuel len (cbyte + 1) (?tr2, ?buf2) = (b, tr', buf')"
        by (subst (asm) read_bytes.simps) (simp add: load_def)
      have "\<exists>evs rx. tr' = ?tr2 @ evs \<and> actions evs = rx_events (unat (cbyte + 1)) rx \<and>
         buf' = rx_buffer (unat (cbyte + 1)) rx ?buf2 \<and>
         (if b then length rx = unat len - unat (cbyte + 1)
          else length rx < unat len - unat (cbyte + 1))"
        using "1.hyps" [of bf tr1 ?v "tr1 @ [Load DATAR ?v]"] True wf ne bt rec
        by (simp add: load_def)
      then obtain evs rx where
        ih: "tr' = ?tr2 @ evs" "actions evs = rx_events (unat (cbyte + 1)) rx"
          "buf' = rx_buffer (unat (cbyte + 1)) rx ?buf2"
          "if b then length rx = unat len - unat (cbyte + 1)
           else length rx < unat len - unat (cbyte + 1)"
        by blast
      note suc = u8_less_Suc [OF True]
      let ?evs = "map (Load STAR1) vs @ [Load DATAR ?v, BufStore (unat cbyte) (ucast ?v)] @ evs"
      have "tr' = tr @ ?evs"
        using ih(1) tr1 by simp
      moreover have "actions ?evs = rx_events (unat cbyte) (?v # rx)"
        using ih(2) suc by simp
      moreover have "buf' = rx_buffer (unat cbyte) (?v # rx) buf"
        using ih(3) suc by simp
      moreover have "if b then length (?v # rx) = unat len - unat cbyte
          else length (?v # rx) < unat len - unat cbyte"
        using ih(4) suc pos by (auto split: if_splits)
      ultimately show ?thesis by blast
    qed
  qed
qed

lemma write_bytes_trace:
  "write_bytes c h fuel buf len cbyte tr = (b, tr') \<Longrightarrow>
     \<exists>evs n. tr' = tr @ evs \<and> actions evs = tx_events buf (unat cbyte) n \<and>
       (if b then n = unat len - unat cbyte else n < unat len - unat cbyte)"
proof (induction c h fuel buf len cbyte tr rule: write_bytes.induct)
  case (1 c h fuel buf len cbyte tr)
  note run = "1.prems"
  show ?case
  proof (cases "cbyte < len")
    case False
    then have "unat len - unat cbyte = 0"
      by (simp add: word_less_nat_alt)
    moreover from run False have "b" "tr' = tr"
      by (subst (asm) write_bytes.simps, simp)+
    ultimately have "tr' = tr @ [] \<and> actions [] = tx_events buf (unat cbyte) 0 \<and>
       (if b then 0 = unat len - unat cbyte else 0 < unat len - unat cbyte)"
      by simp
    then show ?thesis by blast
  next
    case True
    then have pos: "0 < unat len - unat cbyte"
      by (auto simp: word_less_nat_alt)
    obtain bf tr1 where wf: "wait_flag h (I2C_STAR1_TXE c) fuel tr = (bf, tr1)"
      by (cases "wait_flag h (I2C_STAR1_TXE c) fuel tr")
    from wait_flag_trace [OF wf] obtain vs where tr1: "tr1 = tr @ map (Load STAR1) vs"
      by blast
    show ?thesis
    proof (cases bf)
      case False
      with run True wf have "\<not> b" "tr' = tr1"
        by (subst (asm) write_bytes.simps, simp)+
      with tr1 pos have "tr' = tr @ map (Load STAR1) vs \<and>
         actions (map (Load STAR1) vs) = tx_events buf (unat cbyte) 0 \<and>
         (if b then 0 = unat len - unat cbyte else 0 < unat len - unat cbyte)"
        by simp
      then show ?thesis by blast
    next
      case bt: True
      let ?x = "buf (unat cbyte)"
      let ?tr2 = "(tr1 @ [BufLoad (unat cbyte) ?x]) @ [Store DATAR (ucast ?x)]"
      from run True wf bt
      have rec: "write_bytes c h fuel buf len (cbyte + 1) ?tr2 = (b, tr')"
        by (subst (asm) write_bytes.simps) (simp add: store_def)
      have "\<exists>evs n. tr' = ?tr2 @ evs \<and> actions evs = tx_events buf (unat (cbyte + 1)) n \<and>
         (if b then n = unat len - unat (cbyte + 1) else n < unat len - unat (cbyte + 1))"
        using "1.IH" [of bf tr1] True wf bt rec
        by (simp add: store_def)
      then obtain evs n where
        ih: "tr' = ?tr2 @ evs" "actions evs = tx_events buf (unat (cbyte + 1)) n"
          "if b then n = unat len - unat (cbyte + 1) else n < unat len - unat (cbyte + 1)"
        by blast
      note suc = u8_less_Suc [OF True]
      let ?evs = "map (Load STAR1) vs @ [BufLoad (unat cbyte) ?x, Store DATAR (ucast ?x)] @ evs"
      have "tr' = tr @ ?evs"
        using ih(1) tr1 by simp
      moreover have "actions ?evs = tx_events buf (unat cbyte) (Suc n)"
        using ih(2) suc by simp
      moreover have "if b then Suc n = unat len - unat cbyte else Suc n < unat len - unat cbyte"
        using ih(3) suc pos by (auto split: if_splits)
      ultimately show ?thesis by blast
    qed
  qed
qed

subsection \<open>The shape of a call of \<open>i2c_read\<close> and of \<open>i2c_write\<close>\<close>

lemma wait_not_busy_actions:
  "wait_not_busy c h t tr = (b, tr') \<Longrightarrow> \<exists>evs. tr' = tr @ evs \<and> actions evs = []"
  by (drule wait_not_busy_trace) auto

lemma last_status_polls:
  "0 < k \<Longrightarrow> last (xs @ replicate k (Status ev False)) = Status ev False"
  by (cases k) (simp_all add: last_append)

lemma wait_ack_actions:
  "wait_ack h ev t tr = (b, tr') \<Longrightarrow>
     \<exists>evs. tr' = tr @ evs \<and> actions evs = [] \<and>
       (\<not> b \<longrightarrow> evs \<noteq> [] \<and> last evs = Status ev False)"
proof -
  assume "wait_ack h ev t tr = (b, tr')"
  from wait_ack_trace [OF this] obtain k where
    k: "tr' = tr @ replicate k (Status ev False) @ (if b then [Status ev True] else [])"
      "b \<or> 0 < k"
    by blast
  let ?evs = "replicate k (Status ev False) @ (if b then [Status ev True] else [])"
  have "\<not> b \<longrightarrow> ?evs \<noteq> [] \<and> last ?evs = Status ev False"
    using k(2) last_status_polls [of k "[]" ev] by auto
  moreover have "actions ?evs = []"
    by simp
  ultimately show ?thesis
    using k(1) by blast
qed

lemma wait_event_actions:
  "wait_event h ev fuel tr = (b, tr') \<Longrightarrow> \<exists>evs. tr' = tr @ evs \<and> actions evs = []"
  by (drule wait_event_trace) auto

lemma wait_flag_actions:
  "wait_flag h flag fuel tr = (b, tr') \<Longrightarrow> \<exists>evs. tr' = tr @ evs \<and> actions evs = []"
  by (drule wait_flag_trace) auto

lemma i2c_read_actions:
  assumes run: "i2c_read c h fuel addr reg len (tr, buf) = (r, tr', buf')"
  shows "\<exists>evs rx. tr' = tr @ evs \<and> buf' = rx_buffer 0 rx buf \<and> length rx \<le> unat len \<and>
       (r = Some I2C_ERR_TIMEOUT \<and> rx = [] \<and> actions evs = [] \<or>
        r = None \<and> rx = [] \<and> actions evs = [SetBits CTLR1 (I2C_CTLR1_START c)] \<or>
        r = Some I2C_ERR_NACK \<and> rx = [] \<and>
          actions evs = [SetBits CTLR1 (I2C_CTLR1_START c), Store DATAR (ucast (addr AND 0xFE))] \<and>
          last evs = Status (I2C_EVENT_MASTER_TRANSMITTER_MODE_SELECTED c) False \<or>
        r = None \<and> rx = [] \<and>
          actions evs = [SetBits CTLR1 (I2C_CTLR1_START c), Store DATAR (ucast (addr AND 0xFE)),
                         Store DATAR (ucast reg)] \<or>
        r = None \<and> rx = [] \<and>
          actions evs = [SetBits CTLR1 (I2C_CTLR1_START c), Store DATAR (ucast (addr AND 0xFE)),
                         Store DATAR (ucast reg)] @
                        (if 1 < len then [SetBits CTLR1 (I2C_CTLR1_ACK c)] else []) @
                        [SetBits CTLR1 (I2C_CTLR1_START c)] \<or>
        r = Some I2C_ERR_NACK \<and> rx = [] \<and>
          actions evs = [SetBits CTLR1 (I2C_CTLR1_START c), Store DATAR (ucast (addr AND 0xFE)),
                         Store DATAR (ucast reg)] @
                        (if 1 < len then [SetBits CTLR1 (I2C_CTLR1_ACK c)] else []) @
                        [SetBits CTLR1 (I2C_CTLR1_START c), Store DATAR (ucast (addr OR 0x01))] \<and>
          last evs = Status (I2C_EVENT_MASTER_RECEIVER_MODE_SELECTED c) False \<or>
        r = None \<and> length rx < unat len \<and>
          actions evs = [SetBits CTLR1 (I2C_CTLR1_START c), Store DATAR (ucast (addr AND 0xFE)),
                         Store DATAR (ucast reg)] @
                        (if 1 < len then [SetBits CTLR1 (I2C_CTLR1_ACK c)] else []) @
                        [SetBits CTLR1 (I2C_CTLR1_START c), Store DATAR (ucast (addr OR 0x01))] @
                        rx_events 0 rx \<or>
        r = Some I2C_OK \<and> length rx = unat len \<and>
          actions evs = [SetBits CTLR1 (I2C_CTLR1_START c), Store DATAR (ucast (addr AND 0xFE)),
                         Store DATAR (ucast reg)] @
                        (if 1 < len then [SetBits CTLR1 (I2C_CTLR1_ACK c)] else []) @
                        [SetBits CTLR1 (I2C_CTLR1_START c), Store DATAR (ucast (addr OR 0x01))] @
                        rx_events 0 rx @ [SetBits CTLR1 (I2C_CTLR1_STOP c)])"
    (is "\<exists>evs rx. ?Q evs rx")
proof -
  let ?S = "SetBits CTLR1 (I2C_CTLR1_START c)"
  let ?W = "Store DATAR (ucast (addr AND 0xFE))"
  let ?G = "Store DATAR (ucast reg)"
  let ?K = "if 1 < len then [SetBits CTLR1 (I2C_CTLR1_ACK c)] else []"
  let ?R = "Store DATAR (ucast (addr OR 0x01))"
  let ?P = "SetBits CTLR1 (I2C_CTLR1_STOP c)"
  obtain b1 tr1 where w1: "wait_not_busy c h (I2C_TIMEOUT c) tr = (b1, tr1)"
    by (cases "wait_not_busy c h (I2C_TIMEOUT c) tr")
  obtain b2 tr2 where
    w2: "wait_event h (I2C_EVENT_MASTER_MODE_SELECT c) fuel (tr1 @ [?S]) = (b2, tr2)"
    by (cases "wait_event h (I2C_EVENT_MASTER_MODE_SELECT c) fuel (tr1 @ [?S])")
  obtain b3 tr3 where
    w3: "wait_ack h (I2C_EVENT_MASTER_TRANSMITTER_MODE_SELECTED c) (I2C_TIMEOUT c) (tr2 @ [?W]) =
           (b3, tr3)"
    by (cases "wait_ack h (I2C_EVENT_MASTER_TRANSMITTER_MODE_SELECTED c) (I2C_TIMEOUT c)
                 (tr2 @ [?W])")
  obtain b4 tr4 where w4: "wait_flag h (I2C_STAR1_TXE c) fuel (tr3 @ [?G]) = (b4, tr4)"
    by (cases "wait_flag h (I2C_STAR1_TXE c) fuel (tr3 @ [?G])")
  obtain b5 tr5 where
    w5: "wait_event h (I2C_EVENT_MASTER_MODE_SELECT c) fuel ((tr4 @ ?K) @ [?S]) = (b5, tr5)"
    by (cases "wait_event h (I2C_EVENT_MASTER_MODE_SELECT c) fuel ((tr4 @ ?K) @ [?S])")
  obtain b6 tr6 where
    w6: "wait_ack h (I2C_EVENT_MASTER_RECEIVER_MODE_SELECTED c) (I2C_TIMEOUT c) (tr5 @ [?R]) =
           (b6, tr6)"
    by (cases "wait_ack h (I2C_EVENT_MASTER_RECEIVER_MODE_SELECTED c) (I2C_TIMEOUT c)
                 (tr5 @ [?R])")
  obtain b7 tr7 buf7 where w7: "read_bytes c h fuel len 0 (tr6, buf) = (b7, tr7, buf7)"
    by (cases "read_bytes c h fuel len 0 (tr6, buf)")
  have w5': "wait_event h (I2C_EVENT_MASTER_MODE_SELECT c) fuel
               (set_bits CTLR1 (I2C_CTLR1_START c)
                  (if 1 < len then set_bits CTLR1 (I2C_CTLR1_ACK c) tr4 else tr4)) = (b5, tr5)"
    using w5 by (cases "1 < len") (simp_all add: set_bits_def)
  from wait_not_busy_actions [OF w1] obtain e1 where t1: "tr1 = tr @ e1" "actions e1 = []"
    by blast
  from wait_event_actions [OF w2] obtain e2 where t2: "tr2 = (tr1 @ [?S]) @ e2" "actions e2 = []"
    by blast
  from wait_ack_actions [OF w3] obtain e3 where
    t3: "tr3 = (tr2 @ [?W]) @ e3" "actions e3 = []"
      "\<not> b3 \<longrightarrow> e3 \<noteq> [] \<and>
         last e3 = Status (I2C_EVENT_MASTER_TRANSMITTER_MODE_SELECTED c) False"
    by blast
  from wait_flag_actions [OF w4] obtain e4 where t4: "tr4 = (tr3 @ [?G]) @ e4" "actions e4 = []"
    by blast
  from wait_event_actions [OF w5] obtain e5 where
    t5: "tr5 = ((tr4 @ ?K) @ [?S]) @ e5" "actions e5 = []"
    by blast
  from wait_ack_actions [OF w6] obtain e6 where
    t6: "tr6 = (tr5 @ [?R]) @ e6" "actions e6 = []"
      "\<not> b6 \<longrightarrow> e6 \<noteq> [] \<and>
         last e6 = Status (I2C_EVENT_MASTER_RECEIVER_MODE_SELECTED c) False"
    by blast
  from read_bytes_trace [OF w7] obtain e7 rx where
    t7': "tr7 = tr6 @ e7" "actions e7 = rx_events (unat (0::u8)) rx"
      "buf7 = rx_buffer (unat (0::u8)) rx buf"
      "if b7 then length rx = unat len - unat (0::u8) else length rx < unat len - unat (0::u8)"
    by blast
  have t7: "tr7 = tr6 @ e7" "actions e7 = rx_events 0 rx" "buf7 = rx_buffer 0 rx buf"
      "if b7 then length rx = unat len else length rx < unat len"
    using t7' by (simp_all split: if_splits)
  note defs = i2c_read_def set_bits_def [of CTLR1 "I2C_CTLR1_START c" tr1]
    set_bits_def [of CTLR1 "I2C_CTLR1_STOP c"] store_def
  consider
      (busy) "\<not> b1"
    | (start) "b1" "\<not> b2"
    | (nack) "b1" "b2" "\<not> b3"
    | (txe) "b1" "b2" "b3" "\<not> b4"
    | (restart) "b1" "b2" "b3" "b4" "\<not> b5"
    | (nack2) "b1" "b2" "b3" "b4" "b5" "\<not> b6"
    | (bytes) "b1" "b2" "b3" "b4" "b5" "b6" "\<not> b7"
    | (ok) "b1" "b2" "b3" "b4" "b5" "b6" "b7"
    by blast
  then show ?thesis
  proof cases
    case busy
    with run w1 have "r = Some I2C_ERR_TIMEOUT" "tr' = tr1" "buf' = buf"
      by (simp_all add: defs)
    with t1 have "?Q e1 []" by simp
    then show ?thesis by blast
  next
    case start
    with run w1 w2 have "r = None" "tr' = tr2" "buf' = buf"
      by (simp_all add: defs)
    with t1 t2 have "?Q (e1 @ [?S] @ e2) []" by simp
    then show ?thesis by blast
  next
    case nack
    with run w1 w2 w3 have "r = Some I2C_ERR_NACK" "tr' = tr3" "buf' = buf"
      by (simp_all add: defs)
    with t1 t2 t3 nack(3) have "?Q (e1 @ [?S] @ e2 @ [?W] @ e3) []"
      by (simp add: last_append)
    then show ?thesis by blast
  next
    case txe
    with run w1 w2 w3 w4 have "r = None" "tr' = tr4" "buf' = buf"
      by (simp_all add: defs)
    with t1 t2 t3 t4 have "?Q (e1 @ [?S] @ e2 @ [?W] @ e3 @ [?G] @ e4) []" by simp
    then show ?thesis by blast
  next
    case restart
    with run w1 w2 w3 w4 w5' have "r = None" "tr' = tr5" "buf' = buf"
      by (simp_all add: defs)
    with t1 t2 t3 t4 t5
    have "?Q (e1 @ [?S] @ e2 @ [?W] @ e3 @ [?G] @ e4 @ ?K @ [?S] @ e5) []" by simp
    then show ?thesis by blast
  next
    case nack2
    with run w1 w2 w3 w4 w5' w6 have "r = Some I2C_ERR_NACK" "tr' = tr6" "buf' = buf"
      by (simp_all add: defs)
    with t1 t2 t3 t4 t5 t6 nack2(6)
    have "?Q (e1 @ [?S] @ e2 @ [?W] @ e3 @ [?G] @ e4 @ ?K @ [?S] @ e5 @ [?R] @ e6) []"
      by (simp add: last_append)
    then show ?thesis by blast
  next
    case bytes
    with run w1 w2 w3 w4 w5' w6 w7 have "r = None" "tr' = tr7" "buf' = buf7"
      by (simp_all add: defs)
    with t1 t2 t3 t4 t5 t6 t7 bytes(7)
    have "?Q (e1 @ [?S] @ e2 @ [?W] @ e3 @ [?G] @ e4 @ ?K @ [?S] @ e5 @ [?R] @ e6 @ e7) rx"
      by simp
    then show ?thesis by blast
  next
    case ok
    with run w1 w2 w3 w4 w5' w6 w7 have "r = Some I2C_OK" "tr' = tr7 @ [?P]" "buf' = buf7"
      by (simp_all add: defs)
    with t1 t2 t3 t4 t5 t6 t7 ok(7)
    have "?Q (e1 @ [?S] @ e2 @ [?W] @ e3 @ [?G] @ e4 @ ?K @ [?S] @ e5 @ [?R] @ e6 @ e7 @ [?P]) rx"
      by simp
    then show ?thesis by blast
  qed
qed

text \<open>
  When the write loop has sent at least one byte, the last three events are the read of
  \<open>STAR1\<close> that showed the transmit register empty, the read of the last byte of the
  buffer, and its store to the data register.
\<close>

lemma write_bytes_last:
  "write_bytes c h fuel buf len cbyte tr = (True, tr') \<Longrightarrow> cbyte < len \<Longrightarrow>
     \<exists>pre v. tr' = tr @ pre @
         [Load STAR1 v, BufLoad (unat len - 1) (buf (unat len - 1)),
          Store DATAR (ucast (buf (unat len - 1)))] \<and>
       v AND I2C_STAR1_TXE c \<noteq> 0"
proof (induction c h fuel buf len cbyte tr rule: write_bytes.induct)
  case (1 c h fuel buf len cbyte tr)
  note run = "1.prems"(1) and less = "1.prems"(2)
  obtain bf tr1 where wf: "wait_flag h (I2C_STAR1_TXE c) fuel tr = (bf, tr1)"
    by (cases "wait_flag h (I2C_STAR1_TXE c) fuel tr")
  from run less wf have bf
    by (subst (asm) write_bytes.simps) (auto split: bool.splits)
  from wait_flag_trace [OF wf] \<open>bf\<close> obtain vs where
    vs: "tr1 = tr @ map (Load STAR1) vs" "vs \<noteq> []" "last vs AND I2C_STAR1_TXE c \<noteq> 0"
    by blast
  then have tr1: "tr1 = tr @ map (Load STAR1) (butlast vs) @ [Load STAR1 (last vs)]"
    by (metis append_butlast_last_id list.simps(8,9) map_append)
  let ?x = "buf (unat cbyte)"
  let ?tr2 = "(tr1 @ [BufLoad (unat cbyte) ?x]) @ [Store DATAR (ucast ?x)]"
  from run less wf \<open>bf\<close>
  have rec: "write_bytes c h fuel buf len (cbyte + 1) ?tr2 = (True, tr')"
    by (subst (asm) write_bytes.simps) (simp add: store_def)
  note suc = u8_less_Suc [OF less]
  show ?case
  proof (cases "cbyte + 1 < len")
    case True
    have "\<exists>pre v. tr' = ?tr2 @ pre @
         [Load STAR1 v, BufLoad (unat len - 1) (buf (unat len - 1)),
          Store DATAR (ucast (buf (unat len - 1)))] \<and>
       v AND I2C_STAR1_TXE c \<noteq> 0"
      using "1.IH" [of bf tr1] less wf \<open>bf\<close> rec True by (simp add: store_def)
    then obtain pre v where
      "tr' = ?tr2 @ pre @
         [Load STAR1 v, BufLoad (unat len - 1) (buf (unat len - 1)),
          Store DATAR (ucast (buf (unat len - 1)))]" "v AND I2C_STAR1_TXE c \<noteq> 0"
      by blast
    then have "tr' = tr @
        (map (Load STAR1) vs @ [BufLoad (unat cbyte) ?x, Store DATAR (ucast ?x)] @ pre) @
         [Load STAR1 v, BufLoad (unat len - 1) (buf (unat len - 1)),
          Store DATAR (ucast (buf (unat len - 1)))] \<and> v AND I2C_STAR1_TXE c \<noteq> 0"
      using vs(1) by simp
    then show ?thesis by blast
  next
    case False
    with rec have "tr' = ?tr2"
      by (subst (asm) write_bytes.simps) simp
    moreover have "unat len - 1 = unat cbyte"
    proof -
      from less have "unat cbyte < unat len" by (simp add: word_less_nat_alt)
      moreover from False have "unat len \<le> unat (cbyte + 1)"
        by (simp add: word_less_nat_alt)
      ultimately show ?thesis using suc by simp
    qed
    ultimately have "tr' = tr @ map (Load STAR1) (butlast vs) @
         [Load STAR1 (last vs), BufLoad (unat len - 1) (buf (unat len - 1)),
          Store DATAR (ucast (buf (unat len - 1)))] \<and> last vs AND I2C_STAR1_TXE c \<noteq> 0"
      using tr1 vs(3) by simp
    then show ?thesis by blast
  qed
qed

lemma write_bytes_none:
  "\<not> cbyte < len \<Longrightarrow> write_bytes c h fuel buf len cbyte tr = (True, tr)"
  by (subst write_bytes.simps) simp

lemma i2c_write_actions:
  assumes run: "i2c_write c h fuel addr reg buf len tr = (r, tr')"
  shows "\<exists>evs n. tr' = tr @ evs \<and> n \<le> unat len \<and>
       (r = Some I2C_ERR_TIMEOUT \<and> actions evs = [] \<or>
        r = None \<and> actions evs = [SetBits CTLR1 (I2C_CTLR1_START c)] \<or>
        r = Some I2C_ERR_NACK \<and>
          actions evs = [SetBits CTLR1 (I2C_CTLR1_START c), Store DATAR (ucast (addr AND 0xFE))] \<and>
          last evs = Status (I2C_EVENT_MASTER_TRANSMITTER_MODE_SELECTED c) False \<or>
        r = None \<and>
          actions evs = [SetBits CTLR1 (I2C_CTLR1_START c), Store DATAR (ucast (addr AND 0xFE)),
                         Store DATAR (ucast reg)] @ tx_events buf 0 n \<or>
        r = Some I2C_OK \<and> n = unat len \<and>
          actions evs = [SetBits CTLR1 (I2C_CTLR1_START c), Store DATAR (ucast (addr AND 0xFE)),
                         Store DATAR (ucast reg)] @ tx_events buf 0 n @
                        [SetBits CTLR1 (I2C_CTLR1_STOP c)] \<and>
          (\<exists>pre v k. evs = pre @ Load STAR1 v #
              (if len = 0 then []
               else [BufLoad (unat len - 1) (buf (unat len - 1)),
                     Store DATAR (ucast (buf (unat len - 1)))]) @
              replicate k (Status (I2C_EVENT_MASTER_BYTE_TRANSMITTED c) False) @
              [Status (I2C_EVENT_MASTER_BYTE_TRANSMITTED c) True,
               SetBits CTLR1 (I2C_CTLR1_STOP c)] \<and>
            v AND I2C_STAR1_TXE c \<noteq> 0))"
    (is "\<exists>evs n. ?Q evs n")
proof -
  let ?S = "SetBits CTLR1 (I2C_CTLR1_START c)"
  let ?W = "Store DATAR (ucast (addr AND 0xFE))"
  let ?G = "Store DATAR (ucast reg)"
  let ?P = "SetBits CTLR1 (I2C_CTLR1_STOP c)"
  let ?TMS = "I2C_EVENT_MASTER_TRANSMITTER_MODE_SELECTED c"
  let ?BTF = "I2C_EVENT_MASTER_BYTE_TRANSMITTED c"
  let ?L = "if len = 0 then []
            else [BufLoad (unat len - 1) (buf (unat len - 1)),
                  Store DATAR (ucast (buf (unat len - 1)))]"
  obtain b1 tr1 where w1: "wait_not_busy c h (I2C_TIMEOUT c) tr = (b1, tr1)"
    by (cases "wait_not_busy c h (I2C_TIMEOUT c) tr")
  obtain b2 tr2 where
    w2: "wait_event h (I2C_EVENT_MASTER_MODE_SELECT c) fuel (tr1 @ [?S]) = (b2, tr2)"
    by (cases "wait_event h (I2C_EVENT_MASTER_MODE_SELECT c) fuel (tr1 @ [?S])")
  obtain b3 tr3 where w3: "wait_ack h ?TMS (I2C_TIMEOUT c) (tr2 @ [?W]) = (b3, tr3)"
    by (cases "wait_ack h ?TMS (I2C_TIMEOUT c) (tr2 @ [?W])")
  obtain b4 tr4 where w4: "wait_flag h (I2C_STAR1_TXE c) fuel (tr3 @ [?G]) = (b4, tr4)"
    by (cases "wait_flag h (I2C_STAR1_TXE c) fuel (tr3 @ [?G])")
  obtain b5 tr5 where w5: "write_bytes c h fuel buf len 0 tr4 = (b5, tr5)"
    by (cases "write_bytes c h fuel buf len 0 tr4")
  obtain b6 tr6 where w6: "wait_event h ?BTF fuel tr5 = (b6, tr6)"
    by (cases "wait_event h ?BTF fuel tr5")
  from wait_not_busy_actions [OF w1] obtain e1 where t1: "tr1 = tr @ e1" "actions e1 = []"
    by blast
  from wait_event_actions [OF w2] obtain e2 where t2: "tr2 = (tr1 @ [?S]) @ e2" "actions e2 = []"
    by blast
  from wait_ack_trace [OF w3] obtain k3 where
    t3: "tr3 = (tr2 @ [?W]) @ replicate k3 (Status ?TMS False) @
               (if b3 then [Status ?TMS True] else [])" "b3 \<or> 0 < k3"
    by blast
  from wait_flag_trace [OF w4] obtain vs where
    t4: "tr4 = (tr3 @ [?G]) @ map (Load STAR1) vs" "b4 \<longrightarrow> vs \<noteq> [] \<and> last vs AND I2C_STAR1_TXE c \<noteq> 0"
    by blast
  from write_bytes_trace [OF w5] obtain e5 n where
    t5': "tr5 = tr4 @ e5" "actions e5 = tx_events buf (unat (0::u8)) n"
      "if b5 then n = unat len - unat (0::u8) else n < unat len - unat (0::u8)"
    by blast
  have t5: "tr5 = tr4 @ e5" "actions e5 = tx_events buf 0 n"
      "if b5 then n = unat len else n < unat len"
    using t5' by (simp_all split: if_splits)
  from wait_event_trace [OF w6] obtain k6 where
    t6: "tr6 = tr5 @ replicate k6 (Status ?BTF False) @ (if b6 then [Status ?BTF True] else [])"
    by blast
  note defs = i2c_write_def set_bits_def store_def
  consider
      (busy) "\<not> b1"
    | (start) "b1" "\<not> b2"
    | (nack) "b1" "b2" "\<not> b3"
    | (txe) "b1" "b2" "b3" "\<not> b4"
    | (bytes) "b1" "b2" "b3" "b4" "\<not> b5"
    | (btf) "b1" "b2" "b3" "b4" "b5" "\<not> b6"
    | (ok) "b1" "b2" "b3" "b4" "b5" "b6"
    by blast
  then show ?thesis
  proof cases
    case busy
    with run w1 have "r = Some I2C_ERR_TIMEOUT" "tr' = tr1"
      by (simp_all add: defs)
    with t1 have "?Q e1 0" by simp
    then show ?thesis by blast
  next
    case start
    with run w1 w2 have "r = None" "tr' = tr2"
      by (simp_all add: defs)
    with t1 t2 have "?Q (e1 @ [?S] @ e2) 0" by simp
    then show ?thesis by blast
  next
    case nack
    with run w1 w2 w3 have "r = Some I2C_ERR_NACK" "tr' = tr3"
      by (simp_all add: defs)
    moreover from nack t3 have "0 < k3" by simp
    ultimately have "?Q (e1 @ [?S] @ e2 @ [?W] @ replicate k3 (Status ?TMS False)) 0"
      using t1 t2 t3 nack(3) last_status_polls [of k3 "e1 @ [?S] @ e2 @ [?W]" ?TMS]
      by simp
    then show ?thesis by blast
  next
    case txe
    with run w1 w2 w3 w4 have "r = None" "tr' = tr4"
      by (simp_all add: defs)
    with t1 t2 t3 t4
    have "?Q (e1 @ [?S] @ e2 @ [?W] @ replicate k3 (Status ?TMS False) @
              (if b3 then [Status ?TMS True] else []) @ [?G] @ map (Load STAR1) vs) 0"
      by simp
    then show ?thesis by blast
  next
    case bytes
    with run w1 w2 w3 w4 w5 have "r = None" "tr' = tr5"
      by (simp_all add: defs)
    with t1 t2 t3 t4 t5 bytes(5)
    have "?Q (e1 @ [?S] @ e2 @ [?W] @ replicate k3 (Status ?TMS False) @
              (if b3 then [Status ?TMS True] else []) @ [?G] @ map (Load STAR1) vs @ e5) n"
      by simp
    then show ?thesis by blast
  next
    case btf
    with run w1 w2 w3 w4 w5 w6 have "r = None" "tr' = tr6"
      by (simp_all add: defs)
    with t1 t2 t3 t4 t5 t6 btf(5)
    have "?Q (e1 @ [?S] @ e2 @ [?W] @ replicate k3 (Status ?TMS False) @
              (if b3 then [Status ?TMS True] else []) @ [?G] @ map (Load STAR1) vs @ e5 @
              replicate k6 (Status ?BTF False) @ (if b6 then [Status ?BTF True] else [])) n"
      by simp
    then show ?thesis by blast
  next
    case ok
    with run w1 w2 w3 w4 w5 w6 have res: "r = Some I2C_OK" "tr' = tr6 @ [?P]"
      by (simp_all add: defs)
    let ?evs = "e1 @ [?S] @ e2 @ [?W] @ replicate k3 (Status ?TMS False) @
              (if b3 then [Status ?TMS True] else []) @ [?G] @ map (Load STAR1) vs @ e5 @
              replicate k6 (Status ?BTF False) @ [Status ?BTF True] @ [?P]"
    have ext: "tr' = tr @ ?evs"
      using res t1 t2 t3 t4 t5 t6 ok by simp
    have n: "n = unat len"
      using t5 ok by simp
    have act: "actions ?evs = [?S, ?W, ?G] @ tx_events buf 0 n @ [?P]"
      using t1 t2 t5 by simp
    have "\<exists>pre v. tr5 = tr @ pre @ Load STAR1 v # ?L \<and> v AND I2C_STAR1_TXE c \<noteq> 0"
    proof (cases "len = 0")
      case True
      then have "tr5 = tr4"
        using w5 write_bytes_none [of 0 len c h fuel buf tr4] by simp
      moreover from t4 ok have "vs \<noteq> []" "last vs AND I2C_STAR1_TXE c \<noteq> 0"
        by simp_all
      then have "map (Load STAR1) vs = map (Load STAR1) (butlast vs) @ [Load STAR1 (last vs)]"
        by (metis append_butlast_last_id list.simps(8,9) map_append)
      ultimately have "tr5 = tr @ (e1 @ [?S] @ e2 @ [?W] @ replicate k3 (Status ?TMS False) @
              (if b3 then [Status ?TMS True] else []) @ [?G] @ map (Load STAR1) (butlast vs)) @
              Load STAR1 (last vs) # ?L"
        using True t1 t2 t3 t4 by simp
      with \<open>last vs AND I2C_STAR1_TXE c \<noteq> 0\<close> show ?thesis by blast
    next
      case False
      then have "0 < len" by (simp add: word_neq_0_conv)
      from write_bytes_last [OF w5 [unfolded \<open>b5\<close> [THEN eqTrueI]] this] ok
      obtain pre v where
        l: "tr5 = tr4 @ pre @ [Load STAR1 v, BufLoad (unat len - 1) (buf (unat len - 1)),
              Store DATAR (ucast (buf (unat len - 1)))]" "v AND I2C_STAR1_TXE c \<noteq> 0"
        by blast
      then have "tr5 = tr @ (e1 @ [?S] @ e2 @ [?W] @ replicate k3 (Status ?TMS False) @
              (if b3 then [Status ?TMS True] else []) @ [?G] @ map (Load STAR1) vs @ pre) @
              Load STAR1 v # ?L"
        using False t1 t2 t3 t4 by simp
      with l(2) show ?thesis by blast
    qed
    then obtain pre v where
      tail: "tr5 = tr @ pre @ Load STAR1 v # ?L" "v AND I2C_STAR1_TXE c \<noteq> 0"
      by blast
    have "tr' = tr @ pre @ Load STAR1 v # ?L @ replicate k6 (Status ?BTF False) @
            [Status ?BTF True, ?P]"
      using res t6 ok tail(1) by simp
    with ext have "?evs = pre @ Load STAR1 v # ?L @ replicate k6 (Status ?BTF False) @
            [Status ?BTF True, ?P]"
      by simp
    with tail(2) have "\<exists>pre v k. ?evs = pre @ Load STAR1 v # ?L @
        replicate k (Status ?BTF False) @ [Status ?BTF True, ?P] \<and> v AND I2C_STAR1_TXE c \<noteq> 0"
      by blast
    with ext n act res(1) have "?Q ?evs n"
      by simp
    then show ?thesis by blast
  qed
qed

subsection \<open>Further facts for the claims\<close>

lemma no_clear_bits_rx_events: "ClearBits x m \<notin> set (rx_events i vs)"
  by (induction i vs rule: rx_events.induct) simp_all

lemma no_set_bits_rx_events: "SetBits x m \<notin> set (rx_events i vs)"
  by (induction i vs rule: rx_events.induct) simp_all

lemma low_bit_masked: "((addr::u8) XOR 1) AND 0xFE = addr AND 0xFE"
proof (rule bit_word_eqI)
  fix n assume "n < LENGTH(8)"
  have "\<not> bit (0xFE :: u8) 0" by simp
  then show "bit ((addr XOR 1) AND 0xFE) n = bit (addr AND 0xFE) n"
    by (cases n) (auto simp: bit_simps)
qed

lemma low_bit_forced: "((addr::u8) XOR 1) OR 1 = addr OR 1"
  by (rule bit_word_eqI) (auto simp: bit_simps)

lemma prefix_map_upt: "n \<le> m \<Longrightarrow> prefix (map f [0..<n]) (map f [0..<m])"
proof -
  assume "n \<le> m"
  then have "[0..<m] = [0..<n] @ [n..<m]"
    by (metis le_add_diff_inverse upt_add_eq_append zero_le)
  then show ?thesis
    by (simp add: prefix_def)
qed

lemma control_writes_status_polls [simp]: "control_writes (replicate k (Status ev b)) = []"
  by (induction k) simp_all



subsection \<open>Waits on hardware that answers at once, or never\<close>







subsection \<open>A call that returns \<open>I2C_ERR_NACK\<close>, on any hardware\<close>



subsection \<open>A call whose address poll times out\<close>



subsection \<open>The whole trace of a transfer of no bytes that returns \<open>I2C_OK\<close>\<close>








section \<open>The claims\<close>

text \<open>
  Each claim is about the trace \<open>tr'\<close> that a call leaves, which extends the history
  \<open>tr\<close> before the call by the events \<open>evs\<close> of the call. The claims hold for
  every hardware, every configuration and every \<open>fuel\<close>, so also for a call that never
  returns: for every point that it reaches.
\<close>

text \<open>
  C1: if \<open>i2c_read\<close> returns \<open>I2C_OK\<close>, the call has read exactly \<open>len\<close> values
  from the data register and has stored them, cut to a byte, to the buffer at the indices
  0 to \<open>len - 1\<close> in the order of the transfer (byte \<open>i\<close> at index \<open>i\<close>); it has
  stored nothing else to the buffer, which afterwards holds these bytes below \<open>len\<close>
  and its old contents from \<open>len\<close> on.
\<close>

theorem i2c_read_ok_buffer:
  assumes "i2c_read c h fuel addr reg len (tr, buf) = (Some I2C_OK, tr', buf')"
  shows "\<exists>evs. tr' = tr @ evs \<and> length (data_reads evs) = unat len \<and>
      buffer_writes evs = zip [0..<unat len] (map ucast (data_reads evs)) \<and>
      (\<forall>i. buf' i = (if i < unat len then ucast (data_reads evs ! i) else buf i))"
proof -
  from i2c_read_actions [OF assms]
  have "\<exists>evs. tr' = tr @ evs \<and> length (data_reads (actions evs)) = unat len \<and>
      buffer_writes (actions evs) = zip [0..<unat len] (map ucast (data_reads (actions evs))) \<and>
      (\<forall>i. buf' i = (if i < unat len then ucast (data_reads (actions evs) ! i) else buf i))"
    apply (elim exE conjE)
    subgoal for evs rx
      apply (rule exI [of _ evs])
      apply (simp add: rx_buffer_apply)
      done
    done
  then show ?thesis
    by (simp only: data_reads_actions buffer_writes_actions)
qed

text \<open>A device that answers at once and reads as 13, 16, 19: three bytes into a buffer of zeros.\<close>

theorem i2c_read_ok_buffer_witness:
  "fst (i2c_read (example_defs 2) hw_device 1 0x51 0x10 3 ([], \<lambda>i. 0)) = Some I2C_OK \<and>
   data_reads (fst (snd (i2c_read (example_defs 2) hw_device 1 0x51 0x10 3 ([], \<lambda>i. 0)))) = [13, 16, 19] \<and>
   map (snd (snd (i2c_read (example_defs 2) hw_device 1 0x51 0x10 3 ([], \<lambda>i. 0)))) [0..<5] = [13, 16, 19, 0, 0] \<and>
   (\<exists>evs. fst (snd (i2c_read (example_defs 2) hw_device 1 0x51 0x10 3 ([], \<lambda>i. 0))) = [] @ evs \<and>
      length (data_reads evs) = unat (3::u8) \<and>
      buffer_writes evs = zip [0..<unat (3::u8)] (map ucast (data_reads evs)) \<and>
      (\<forall>i. snd (snd (i2c_read (example_defs 2) hw_device 1 0x51 0x10 3 ([], \<lambda>i. 0))) i =
         (if i < unat (3::u8) then ucast (data_reads evs ! i) else 0)))"
proof -
  have ok: "fst (i2c_read (example_defs 2) hw_device 1 0x51 0x10 3 ([], \<lambda>i. 0)) = Some I2C_OK"
    by code_simp
  have run: "i2c_read (example_defs 2) hw_device 1 0x51 0x10 3 ([], \<lambda>i. 0) =
      (Some I2C_OK, fst (snd (i2c_read (example_defs 2) hw_device 1 0x51 0x10 3 ([], \<lambda>i. 0))), snd (snd (i2c_read (example_defs 2) hw_device 1 0x51 0x10 3 ([], \<lambda>i. 0))))"
    using ok by (simp add: prod_eq_iff)
  have d: "data_reads (fst (snd (i2c_read (example_defs 2) hw_device 1 0x51 0x10 3 ([], \<lambda>i. 0)))) = [13, 16, 19]"
    by code_simp
  have b: "map (snd (snd (i2c_read (example_defs 2) hw_device 1 0x51 0x10 3 ([], \<lambda>i. 0)))) [0..<5] = [13, 16, 19, 0, 0]"
    by code_simp
  note t = i2c_read_ok_buffer [OF run]
  show ?thesis
    by (intro conjI ok d b t)
qed

text \<open>
  C2, amended: a call of \<open>i2c_ping\<close> that returns \<open>I2C_OK\<close> or \<open>I2C_ERR_NACK\<close> has
  executed, on the control register, exactly the statement that sets START and then the
  statement that sets STOP, once each; a call that returns \<open>I2C_ERR_TIMEOUT\<close> has
  executed neither; a call that is still waiting for the start condition has set START
  only.
\<close>

theorem i2c_ping_start_stop:
  assumes "i2c_ping c h fuel addr tr = (r, tr')"
  shows "\<exists>evs. tr' = tr @ evs \<and>
           control_writes evs =
             (case r of
                None \<Rightarrow> [SetBits CTLR1 (I2C_CTLR1_START c)]
              | Some I2C_ERR_TIMEOUT \<Rightarrow> []
              | Some I2C_ERR_NACK \<Rightarrow> [SetBits CTLR1 (I2C_CTLR1_START c), SetBits CTLR1 (I2C_CTLR1_STOP c)]
              | Some I2C_OK \<Rightarrow> [SetBits CTLR1 (I2C_CTLR1_START c), SetBits CTLR1 (I2C_CTLR1_STOP c)])"
proof -
  from i2c_ping_actions [OF assms] obtain evs where
    ext: "tr' = tr @ evs" and
    sh: "r = Some I2C_ERR_TIMEOUT \<and> actions evs = [] \<or>
         r = None \<and> actions evs = [SetBits CTLR1 (I2C_CTLR1_START c)] \<or>
         (r = Some I2C_OK \<or> r = Some I2C_ERR_NACK) \<and>
           actions evs = [SetBits CTLR1 (I2C_CTLR1_START c), Store DATAR (ucast (addr AND 0xFE)),
                          SetBits CTLR1 (I2C_CTLR1_STOP c)]"
    by blast
  have "control_writes evs = control_writes (actions evs)"
    by (simp add: control_writes_actions)
  with sh have "control_writes evs =
             (case r of
                None \<Rightarrow> [SetBits CTLR1 (I2C_CTLR1_START c)]
              | Some I2C_ERR_TIMEOUT \<Rightarrow> []
              | Some I2C_ERR_NACK \<Rightarrow> [SetBits CTLR1 (I2C_CTLR1_START c), SetBits CTLR1 (I2C_CTLR1_STOP c)]
              | Some I2C_OK \<Rightarrow> [SetBits CTLR1 (I2C_CTLR1_START c), SetBits CTLR1 (I2C_CTLR1_STOP c)])"
    by auto
  with ext show ?thesis by blast
qed

text \<open>An absent device: the call returns \<open>I2C_ERR_NACK\<close> after one START and one STOP.\<close>

theorem i2c_ping_start_stop_witness:
  "i2c_ping (example_defs 2) hw_no_device 1 0x51 [] =
       (Some I2C_ERR_NACK,
        [Load STAR2 0, SetBits CTLR1 0x100, Status 0x30001 True, Store DATAR 0x50,
         Status 0x70082 False, Status 0x70082 False, Status 0x70082 False,
         SetBits CTLR1 0x200]) \<and>
   (\<exists>evs. [Load STAR2 0, SetBits CTLR1 0x100, Status 0x30001 True, Store DATAR 0x50,
         Status 0x70082 False, Status 0x70082 False, Status 0x70082 False,
         SetBits CTLR1 0x200] = [] @ evs \<and>
      control_writes evs = [SetBits CTLR1 0x100, SetBits CTLR1 0x200])"
proof -
  have run: "i2c_ping (example_defs 2) hw_no_device 1 0x51 [] =
       (Some I2C_ERR_NACK,
        [Load STAR2 0, SetBits CTLR1 0x100, Status 0x30001 True, Store DATAR 0x50,
         Status 0x70082 False, Status 0x70082 False, Status 0x70082 False,
         SetBits CTLR1 0x200])"
    by code_simp
  from i2c_ping_start_stop [OF run] show ?thesis
    using run by (simp add: example_defs_def)
qed

text \<open>
  C2 as stated fails for the outcome time-out: with the bus stuck busy the call returns
  \<open>I2C_ERR_TIMEOUT\<close> and has set neither START nor STOP.
\<close>

theorem i2c_ping_timeout_counterexample:
  "fst (i2c_ping (example_defs 2) hw_stuck_busy 1 0x50 []) = Some I2C_ERR_TIMEOUT \<and>
   control_writes (snd (i2c_ping (example_defs 2) hw_stuck_busy 1 0x50 [])) = []"
  by code_simp

text \<open>
  C3: if every read of \<open>STAR2\<close> shows the busy flag, then \<open>i2c_ping\<close>, \<open>i2c_read\<close>
  and \<open>i2c_write\<close> each return \<open>I2C_ERR_TIMEOUT\<close>; all that the call has done is to
  read \<open>STAR2\<close> (one more time than a non-negative \<open>I2C_TIMEOUT\<close> says), so it has
  neither set START nor written the data register, and \<open>i2c_read\<close> has left the buffer
  as it was.
\<close>

theorem stuck_busy_times_out:
  assumes "\<forall>t. reg_value h t STAR2 AND I2C_STAR2_BUSY c \<noteq> 0"
  shows "\<exists>vs. (0 \<le>s I2C_TIMEOUT c \<longrightarrow> length vs = Suc (nat (sint (I2C_TIMEOUT c)))) \<and>
           i2c_ping c h fuel addr tr = (Some I2C_ERR_TIMEOUT, tr @ map (Load STAR2) vs) \<and>
           i2c_read c h fuel addr reg len (tr, buf) =
             (Some I2C_ERR_TIMEOUT, tr @ map (Load STAR2) vs, buf) \<and>
           i2c_write c h fuel addr reg buf len tr =
             (Some I2C_ERR_TIMEOUT, tr @ map (Load STAR2) vs)"
proof -
  from wait_not_busy_stuck [OF assms, of "I2C_TIMEOUT c" tr] obtain vs where
    run: "wait_not_busy c h (I2C_TIMEOUT c) tr = (False, tr @ map (Load STAR2) vs)" and
    len: "0 \<le>s I2C_TIMEOUT c \<longrightarrow> length vs = Suc (nat (sint (I2C_TIMEOUT c)))"
    by blast
  have "i2c_ping c h fuel addr tr = (Some I2C_ERR_TIMEOUT, tr @ map (Load STAR2) vs)"
    by (simp add: i2c_ping_def run)
  moreover have "i2c_read c h fuel addr reg len (tr, buf) =
      (Some I2C_ERR_TIMEOUT, tr @ map (Load STAR2) vs, buf)"
    by (simp add: i2c_read_def run)
  moreover have "i2c_write c h fuel addr reg buf len tr =
      (Some I2C_ERR_TIMEOUT, tr @ map (Load STAR2) vs)"
    by (simp add: i2c_write_def run)
  ultimately show ?thesis using len by blast
qed

text \<open>A bus that is busy for ever, with a time-out of 2: three reads of \<open>STAR2\<close>.\<close>

theorem stuck_busy_times_out_witness:
  "(\<forall>t. reg_value hw_stuck_busy t STAR2 AND I2C_STAR2_BUSY (example_defs 2) \<noteq> 0) \<and>
   (\<exists>vs. length vs = 3 \<and>
      i2c_ping (example_defs 2) hw_stuck_busy 5 0x50 [] =
        (Some I2C_ERR_TIMEOUT, map (Load STAR2) vs) \<and>
      i2c_read (example_defs 2) hw_stuck_busy 5 0x50 0x10 4 ([], \<lambda>i. 0) =
        (Some I2C_ERR_TIMEOUT, map (Load STAR2) vs, \<lambda>i. 0) \<and>
      i2c_write (example_defs 2) hw_stuck_busy 5 0x50 0x10 (\<lambda>i. 0) 4 [] =
        (Some I2C_ERR_TIMEOUT, map (Load STAR2) vs))"
proof -
  have busy: "\<forall>t. reg_value hw_stuck_busy t STAR2 AND I2C_STAR2_BUSY (example_defs 2) \<noteq> 0"
    by (simp add: hw_stuck_busy_def example_defs_def)
  from stuck_busy_times_out [OF busy, of 5 "0x50" "[]" "0x10" 4 "\<lambda>i. 0"] show ?thesis
    using busy by (simp add: example_defs_def word_sle_eq)
qed

text \<open>
  C4: in \<open>i2c_ping\<close>, \<open>i2c_read\<close> and \<open>i2c_write\<close> the first byte stored to the
  data register (the address phase in write direction) is \<open>addr & 0xFE\<close>, whose low bit
  is clear; in \<open>i2c_read\<close> the third byte stored (the address phase in read direction)
  is \<open>addr | 0x01\<close>, whose low bit is set; the only other bytes stored are the register
  index and, in \<open>i2c_write\<close>, the bytes of the buffer. The low bit of the caller's
  \<open>addr\<close> has no effect at all: flipping it changes nothing in what the three calls do.
\<close>

theorem address_byte_low_bit:
  "(\<exists>evs. snd (i2c_ping c h fuel addr tr) = tr @ evs \<and>
          prefix (data_writes evs) [ucast (addr AND 0xFE)]) \<and>
   (\<exists>evs. fst (snd (i2c_read c h fuel addr reg len (tr, buf))) = tr @ evs \<and>
          prefix (data_writes evs) [ucast (addr AND 0xFE), ucast reg, ucast (addr OR 0x01)]) \<and>
   (\<exists>evs. snd (i2c_write c h fuel addr reg buf len tr) = tr @ evs \<and>
          prefix (data_writes evs)
            (ucast (addr AND 0xFE) # ucast reg # map (\<lambda>i. ucast (buf i)) [0..<unat len])) \<and>
   \<not> bit (ucast (addr AND 0xFE) :: u16) 0 \<and>
   bit (ucast (addr OR 0x01) :: u16) 0 \<and>
   i2c_ping c h fuel (addr XOR 1) tr = i2c_ping c h fuel addr tr \<and>
   i2c_read c h fuel (addr XOR 1) reg len (tr, buf) = i2c_read c h fuel addr reg len (tr, buf) \<and>
   i2c_write c h fuel (addr XOR 1) reg buf len tr = i2c_write c h fuel addr reg buf len tr"
proof -
  have ping: "\<exists>evs. snd (i2c_ping c h fuel addr tr) = tr @ evs \<and>
          prefix (data_writes evs) [ucast (addr AND 0xFE)]"
    using i2c_ping_actions [of c h fuel addr tr "fst (i2c_ping c h fuel addr tr)"
        "snd (i2c_ping c h fuel addr tr)"]
    apply simp
    apply (elim exE conjE)
    subgoal for evs
      apply (rule exI [of _ evs])
      apply (subst data_writes_actions [symmetric])
      apply (elim disjE conjE)
         apply simp_all
      done
    done
  have read: "\<exists>evs. fst (snd (i2c_read c h fuel addr reg len (tr, buf))) = tr @ evs \<and>
          prefix (data_writes evs) [ucast (addr AND 0xFE), ucast reg, ucast (addr OR 0x01)]"
    using i2c_read_actions [of c h fuel addr reg len tr buf
        "fst (i2c_read c h fuel addr reg len (tr, buf))"
        "fst (snd (i2c_read c h fuel addr reg len (tr, buf)))"
        "snd (snd (i2c_read c h fuel addr reg len (tr, buf)))"]
    apply simp
    apply (elim exE conjE)
    subgoal for evs rx
      apply (rule exI [of _ evs])
      apply (subst data_writes_actions [symmetric])
      apply (elim disjE conjE)
             apply simp_all
      done
    done
  have "write": "\<exists>evs. snd (i2c_write c h fuel addr reg buf len tr) = tr @ evs \<and>
          prefix (data_writes evs)
            (ucast (addr AND 0xFE) # ucast reg # map (\<lambda>i. ucast (buf i)) [0..<unat len])"
    using i2c_write_actions [of c h fuel addr reg buf len tr
        "fst (i2c_write c h fuel addr reg buf len tr)"
        "snd (i2c_write c h fuel addr reg buf len tr)"]
    apply simp
    apply (elim exE conjE)
    subgoal for evs n
      apply (rule exI [of _ evs])
      apply (subst data_writes_actions [symmetric])
      apply (elim disjE conjE)
          apply (simp_all add: prefix_map_upt)
      done
    done
  have even: "\<not> bit (ucast (addr AND 0xFE) :: u16) 0"
    by (simp add: bit_simps)
  have odd: "bit (ucast (addr OR 0x01) :: u16) 0"
    by (simp add: bit_simps)
  have "i2c_ping c h fuel (addr XOR 1) tr = i2c_ping c h fuel addr tr"
    unfolding i2c_ping_def low_bit_masked by (rule refl)
  moreover have "i2c_read c h fuel (addr XOR 1) reg len (tr, buf) =
      i2c_read c h fuel addr reg len (tr, buf)"
    unfolding i2c_read_def low_bit_masked low_bit_forced by (rule refl)
  moreover have "i2c_write c h fuel (addr XOR 1) reg buf len tr =
      i2c_write c h fuel addr reg buf len tr"
    unfolding i2c_write_def low_bit_masked by (rule refl)
  ultimately show ?thesis
    using ping read "write" even odd by blast
qed

text \<open>The address \<open>0x51\<close> goes out as \<open>0x50\<close> for writing and \<open>0x51\<close> for reading.\<close>

theorem address_byte_low_bit_witness:
  "data_writes (snd (i2c_ping (example_defs 2) hw_device 1 0x51 [])) = [0x50] \<and>
   data_writes (fst (snd (i2c_read (example_defs 2) hw_device 1 0x51 0x10 3 ([], \<lambda>i. 0)))) = [0x50, 0x10, 0x51] \<and>
   data_writes (snd (i2c_write (example_defs 2) hw_device 1 0x51 0x10 (\<lambda>i. of_nat i + 1) 3 [])) = [0x50, 0x10, 1, 2, 3] \<and>
   (\<exists>evs. snd (i2c_ping (example_defs 2) hw_device 1 0x51 []) = [] @ evs \<and>
      prefix (data_writes evs) [0x50]) \<and>
   (\<exists>evs. fst (snd (i2c_read (example_defs 2) hw_device 1 0x51 0x10 3 ([], \<lambda>i. 0))) = [] @ evs \<and>
      prefix (data_writes evs) [0x50, 0x10, 0x51]) \<and>
   i2c_ping (example_defs 2) hw_device 1 0x50 [] = i2c_ping (example_defs 2) hw_device 1 0x51 []"
proof -
  have p: "data_writes (snd (i2c_ping (example_defs 2) hw_device 1 0x51 [])) = [0x50]"
    by code_simp
  have r: "data_writes (fst (snd (i2c_read (example_defs 2) hw_device 1 0x51 0x10 3 ([], \<lambda>i. 0)))) = [0x50, 0x10, 0x51]"
    by code_simp
  have w: "data_writes (snd (i2c_write (example_defs 2) hw_device 1 0x51 0x10 (\<lambda>i. of_nat i + 1) 3 [])) = [0x50, 0x10, 1, 2, 3]"
    by code_simp
  note t = address_byte_low_bit [of "example_defs 2" hw_device 1 "0x51" "[]" "0x10" 3
      "\<lambda>i. 0"]
  have tp: "\<exists>evs. snd (i2c_ping (example_defs 2) hw_device 1 0x51 []) = [] @ evs \<and>
      prefix (data_writes evs) [0x50]"
    using t [THEN conjunct1] by simp
  have tr: "\<exists>evs. fst (snd (i2c_read (example_defs 2) hw_device 1 0x51 0x10 3 ([], \<lambda>i. 0))) = [] @ evs \<and>
      prefix (data_writes evs) [0x50, 0x10, 0x51]"
    using t [THEN conjunct2, THEN conjunct1] by simp
  have tx: "i2c_ping (example_defs 2) hw_device 1 0x50 [] =
      i2c_ping (example_defs 2) hw_device 1 0x51 []"
    using t [THEN conjunct2, THEN conjunct2, THEN conjunct2, THEN conjunct2, THEN conjunct2,
        THEN conjunct1]
    by simp
  show ?thesis
    by (intro conjI p r w tp tr tx)
qed






text \<open>
  C7: in a call of \<open>i2c_read\<close> with \<open>len\<close> at most 1 the statements on the control
  register are START, START, STOP (or a beginning of that, when the call ends or waits
  before): ACK is never set. With \<open>len\<close> greater than 1 they are START, ACK, START, STOP
  (or nothing, or the first START alone): whenever the repeated START has been set, ACK
  was set just before it.
\<close>

theorem i2c_read_ack_mode:
  assumes "i2c_read c h fuel addr reg len (tr, buf) = (r, tr', buf')"
  shows "\<exists>evs. tr' = tr @ evs \<and>
     (if 1 < len
      then control_writes evs = [] \<or>
           control_writes evs = [SetBits CTLR1 (I2C_CTLR1_START c)] \<or>
           control_writes evs = [SetBits CTLR1 (I2C_CTLR1_START c), SetBits CTLR1 (I2C_CTLR1_ACK c),
                                 SetBits CTLR1 (I2C_CTLR1_START c)] \<or>
           control_writes evs = [SetBits CTLR1 (I2C_CTLR1_START c), SetBits CTLR1 (I2C_CTLR1_ACK c),
                                 SetBits CTLR1 (I2C_CTLR1_START c), SetBits CTLR1 (I2C_CTLR1_STOP c)]
      else control_writes evs = [] \<or>
           control_writes evs = [SetBits CTLR1 (I2C_CTLR1_START c)] \<or>
           control_writes evs = [SetBits CTLR1 (I2C_CTLR1_START c), SetBits CTLR1 (I2C_CTLR1_START c)] \<or>
           control_writes evs = [SetBits CTLR1 (I2C_CTLR1_START c), SetBits CTLR1 (I2C_CTLR1_START c),
                                 SetBits CTLR1 (I2C_CTLR1_STOP c)]) \<and>
     (r = Some I2C_OK \<longrightarrow>
        control_writes evs =
          SetBits CTLR1 (I2C_CTLR1_START c) #
          (if 1 < len then [SetBits CTLR1 (I2C_CTLR1_ACK c)] else []) @
          [SetBits CTLR1 (I2C_CTLR1_START c), SetBits CTLR1 (I2C_CTLR1_STOP c)]) \<and>
     (len \<le> 1 \<and> I2C_CTLR1_ACK c \<noteq> I2C_CTLR1_START c \<and> I2C_CTLR1_ACK c \<noteq> I2C_CTLR1_STOP c \<longrightarrow>
        SetBits CTLR1 (I2C_CTLR1_ACK c) \<notin> set evs)"
proof -
  have nle: "len \<le> 1 \<Longrightarrow> \<not> 1 < len"
    by simp
  from i2c_read_actions [OF assms]
  show ?thesis
    apply (elim exE conjE)
    subgoal for evs rx
      apply (rule exI [of _ evs])
      apply (subst (1 2 3 4 5 6 7 8 9) control_writes_actions [symmetric])
      apply (subst set_actions [symmetric], simp)
      apply (elim disjE)
             apply (simp_all add: no_set_bits_rx_events nle)
      done
    done
qed

text \<open>Reading one byte sets START, START, STOP; reading three sets START, ACK, START, STOP.\<close>

theorem i2c_read_ack_mode_witness:
  "fst (i2c_read (example_defs 2) hw_device 1 0x51 0x10 1 ([], \<lambda>i. 0)) = Some I2C_OK \<and>
   fst (i2c_read (example_defs 2) hw_device 1 0x51 0x10 3 ([], \<lambda>i. 0)) = Some I2C_OK \<and>
   (\<exists>evs. fst (snd (i2c_read (example_defs 2) hw_device 1 0x51 0x10 1 ([], \<lambda>i. 0))) = [] @ evs \<and>
      control_writes evs = [SetBits CTLR1 0x100, SetBits CTLR1 0x100, SetBits CTLR1 0x200] \<and>
      SetBits CTLR1 0x400 \<notin> set evs) \<and>
   (\<exists>evs. fst (snd (i2c_read (example_defs 2) hw_device 1 0x51 0x10 3 ([], \<lambda>i. 0))) = [] @ evs \<and>
      control_writes evs =
        [SetBits CTLR1 0x100, SetBits CTLR1 0x400, SetBits CTLR1 0x100, SetBits CTLR1 0x200])"
proof -
  have ok1: "fst (i2c_read (example_defs 2) hw_device 1 0x51 0x10 1 ([], \<lambda>i. 0)) = Some I2C_OK"
    by code_simp
  have ok3: "fst (i2c_read (example_defs 2) hw_device 1 0x51 0x10 3 ([], \<lambda>i. 0)) = Some I2C_OK"
    by code_simp
  have run1: "i2c_read (example_defs 2) hw_device 1 0x51 0x10 1 ([], \<lambda>i. 0) =
      (Some I2C_OK, fst (snd (i2c_read (example_defs 2) hw_device 1 0x51 0x10 1 ([], \<lambda>i. 0))), snd (snd (i2c_read (example_defs 2) hw_device 1 0x51 0x10 1 ([], \<lambda>i. 0))))"
    using ok1 by (simp add: prod_eq_iff)
  have run3: "i2c_read (example_defs 2) hw_device 1 0x51 0x10 3 ([], \<lambda>i. 0) =
      (Some I2C_OK, fst (snd (i2c_read (example_defs 2) hw_device 1 0x51 0x10 3 ([], \<lambda>i. 0))), snd (snd (i2c_read (example_defs 2) hw_device 1 0x51 0x10 3 ([], \<lambda>i. 0))))"
    using ok3 by (simp add: prod_eq_iff)
  have t1: "\<exists>evs. fst (snd (i2c_read (example_defs 2) hw_device 1 0x51 0x10 1 ([], \<lambda>i. 0))) = [] @ evs \<and>
      control_writes evs = [SetBits CTLR1 0x100, SetBits CTLR1 0x100, SetBits CTLR1 0x200] \<and>
      SetBits CTLR1 0x400 \<notin> set evs"
    using i2c_read_ack_mode [OF run1] by (simp add: example_defs_def)
  have t3: "\<exists>evs. fst (snd (i2c_read (example_defs 2) hw_device 1 0x51 0x10 3 ([], \<lambda>i. 0))) = [] @ evs \<and>
      control_writes evs =
        [SetBits CTLR1 0x100, SetBits CTLR1 0x400, SetBits CTLR1 0x100, SetBits CTLR1 0x200]"
    using i2c_read_ack_mode [OF run3] by (simp add: example_defs_def)
  show ?thesis
    by (intro conjI ok1 ok3 t1 t3)
qed

text \<open>
  C8: the statement \<open>I2C1->CTLR1 &= ~I2C_CTLR1_ACK\<close> in the loop of \<open>i2c_read\<close> is
  never executed: its guard \<open>cbyte == len\<close> is evaluated only under the loop condition
  \<open>cbyte < len\<close>. No call of \<open>i2c_read\<close>, whatever the length, the hardware and the
  point it has reached, has cleared any bit of any register.
\<close>

theorem i2c_read_never_clears_ack:
  assumes "i2c_read c h fuel addr reg len (tr, buf) = (r, tr', buf')"
  shows "\<exists>evs. tr' = tr @ evs \<and> (\<forall>x m. ClearBits x m \<notin> set evs)"
proof -
  from i2c_read_actions [OF assms]
  have "\<exists>evs. tr' = tr @ evs \<and> (\<forall>x m. ClearBits x m \<notin> set (actions evs))"
    apply (elim exE conjE)
    subgoal for evs rx
      apply (rule exI [of _ evs])
      apply (elim disjE)
             apply (simp_all add: no_clear_bits_rx_events)
      done
    done
  then show ?thesis
    by (simp add: set_actions)
qed

text \<open>A read of three bytes that returns \<open>I2C_OK\<close>.\<close>

theorem i2c_read_never_clears_ack_witness:
  "fst (i2c_read (example_defs 2) hw_device 1 0x51 0x10 3 ([], \<lambda>i. 0)) = Some I2C_OK \<and>
   (\<exists>evs. fst (snd (i2c_read (example_defs 2) hw_device 1 0x51 0x10 3 ([], \<lambda>i. 0))) = [] @ evs \<and> (\<forall>x m. ClearBits x m \<notin> set evs))"
proof -
  have ok: "fst (i2c_read (example_defs 2) hw_device 1 0x51 0x10 3 ([], \<lambda>i. 0)) = Some I2C_OK"
    by code_simp
  have run: "i2c_read (example_defs 2) hw_device 1 0x51 0x10 3 ([], \<lambda>i. 0) =
      (fst (i2c_read (example_defs 2) hw_device 1 0x51 0x10 3 ([], \<lambda>i. 0)), fst (snd (i2c_read (example_defs 2) hw_device 1 0x51 0x10 3 ([], \<lambda>i. 0))), snd (snd (i2c_read (example_defs 2) hw_device 1 0x51 0x10 3 ([], \<lambda>i. 0))))"
    by simp
  note t = i2c_read_never_clears_ack [OF run]
  show ?thesis
    by (intro conjI ok t)
qed

text \<open>
  C9: the bytes that \<open>i2c_write\<close> stores to the data register are, in this order, the
  address, the register index and the bytes of the buffer from index 0 on (a beginning of
  that list while the call is under way, the whole list when it returns \<open>I2C_OK\<close>).
  STOP is set only by a call that returns \<open>I2C_OK\<close>, and then as its last statement:
  right before it the event "byte transmitted" was reported, before that (and failed
  polls of this event) the last byte of the buffer was stored, and right before that store
  a read of \<open>STAR1\<close> showed the transmit register empty. Nothing before has set STOP.
\<close>

theorem i2c_write_order:
  assumes "i2c_write c h fuel addr reg buf len tr = (r, tr')"
  shows "\<exists>evs. tr' = tr @ evs \<and>
     prefix (data_writes evs)
       (ucast (addr AND 0xFE) # ucast reg # map (\<lambda>i. ucast (buf i)) [0..<unat len]) \<and>
     (r = Some I2C_OK \<longrightarrow>
        data_writes evs =
          ucast (addr AND 0xFE) # ucast reg # map (\<lambda>i. ucast (buf i)) [0..<unat len] \<and>
        (\<exists>pre v k. evs = pre @ Load STAR1 v #
            (if len = 0 then []
             else [BufLoad (unat len - 1) (buf (unat len - 1)),
                   Store DATAR (ucast (buf (unat len - 1)))]) @
            replicate k (Status (I2C_EVENT_MASTER_BYTE_TRANSMITTED c) False) @
            [Status (I2C_EVENT_MASTER_BYTE_TRANSMITTED c) True,
             SetBits CTLR1 (I2C_CTLR1_STOP c)] \<and>
          v AND I2C_STAR1_TXE c \<noteq> 0 \<and>
          control_writes pre = [SetBits CTLR1 (I2C_CTLR1_START c)])) \<and>
     (r \<noteq> Some I2C_OK \<longrightarrow>
        control_writes evs = [] \<or> control_writes evs = [SetBits CTLR1 (I2C_CTLR1_START c)])"
proof -
  let ?S = "SetBits CTLR1 (I2C_CTLR1_START c)"
  let ?P = "SetBits CTLR1 (I2C_CTLR1_STOP c)"
  let ?BTF = "I2C_EVENT_MASTER_BYTE_TRANSMITTED c"
  let ?full = "ucast (addr AND 0xFE) # ucast reg # map (\<lambda>i. ucast (buf i)) [0..<unat len]"
  let ?L = "if len = 0 then []
            else [BufLoad (unat len - 1) (buf (unat len - 1)),
                  Store DATAR (ucast (buf (unat len - 1)))]"
  have tail: "control_writes pre = [?S]"
    if "control_writes (pre @ Load STAR1 v # ?L @ replicate k (Status ?BTF False) @
          [Status ?BTF True, ?P]) = [?S, ?P]" for pre v k
    using that by (simp split: if_splits)
  from i2c_write_actions [OF assms]
  have "\<exists>evs. tr' = tr @ evs \<and>
     prefix (data_writes (actions evs)) ?full \<and>
     (r = Some I2C_OK \<longrightarrow>
        data_writes (actions evs) = ?full \<and>
        control_writes (actions evs) = [?S, ?P] \<and>
        (\<exists>pre v k. evs = pre @ Load STAR1 v # ?L @ replicate k (Status ?BTF False) @
            [Status ?BTF True, ?P] \<and>
          v AND I2C_STAR1_TXE c \<noteq> 0)) \<and>
     (r \<noteq> Some I2C_OK \<longrightarrow>
        control_writes (actions evs) = [] \<or> control_writes (actions evs) = [?S])"
    apply (elim exE conjE)
    subgoal for evs n
      apply (rule exI [of _ evs])
      apply (elim disjE conjE)
          apply (simp_all add: prefix_map_upt)
      done
    done
  then have "\<exists>evs. tr' = tr @ evs \<and>
     prefix (data_writes evs) ?full \<and>
     (r = Some I2C_OK \<longrightarrow>
        data_writes evs = ?full \<and>
        control_writes evs = [?S, ?P] \<and>
        (\<exists>pre v k. evs = pre @ Load STAR1 v # ?L @ replicate k (Status ?BTF False) @
            [Status ?BTF True, ?P] \<and>
          v AND I2C_STAR1_TXE c \<noteq> 0)) \<and>
     (r \<noteq> Some I2C_OK \<longrightarrow>
        control_writes evs = [] \<or> control_writes evs = [?S])"
    by (simp only: data_writes_actions control_writes_actions)
  then obtain evs where q: "tr' = tr @ evs \<and>
     prefix (data_writes evs) ?full \<and>
     (r = Some I2C_OK \<longrightarrow>
        data_writes evs = ?full \<and>
        control_writes evs = [?S, ?P] \<and>
        (\<exists>pre v k. evs = pre @ Load STAR1 v # ?L @ replicate k (Status ?BTF False) @
            [Status ?BTF True, ?P] \<and>
          v AND I2C_STAR1_TXE c \<noteq> 0)) \<and>
     (r \<noteq> Some I2C_OK \<longrightarrow>
        control_writes evs = [] \<or> control_writes evs = [?S])" ..
  then have ext: "tr' = tr @ evs" and
    pre: "prefix (data_writes evs) ?full" and
    ok: "r = Some I2C_OK \<longrightarrow>
        data_writes evs = ?full \<and> control_writes evs = [?S, ?P] \<and>
        (\<exists>pre v k. evs = pre @ Load STAR1 v # ?L @ replicate k (Status ?BTF False) @
            [Status ?BTF True, ?P] \<and>
          v AND I2C_STAR1_TXE c \<noteq> 0)" and
    other: "r \<noteq> Some I2C_OK \<longrightarrow> control_writes evs = [] \<or> control_writes evs = [?S]"
    by (rule conjunct1, rule conjunct2 [THEN conjunct1],
        rule conjunct2 [THEN conjunct2, THEN conjunct1],
        rule conjunct2 [THEN conjunct2, THEN conjunct2])
  have "r = Some I2C_OK \<longrightarrow>
        data_writes evs = ?full \<and>
        (\<exists>pre v k. evs = pre @ Load STAR1 v # ?L @ replicate k (Status ?BTF False) @
            [Status ?BTF True, ?P] \<and>
          v AND I2C_STAR1_TXE c \<noteq> 0 \<and> control_writes pre = [?S])"
  proof
    assume "r = Some I2C_OK"
    with ok have o: "data_writes evs = ?full \<and> control_writes evs = [?S, ?P] \<and>
        (\<exists>pre v k. evs = pre @ Load STAR1 v # ?L @ replicate k (Status ?BTF False) @
            [Status ?BTF True, ?P] \<and>
          v AND I2C_STAR1_TXE c \<noteq> 0)"
      by (rule mp)
    then obtain pre v k where
      a: "data_writes evs = ?full" "control_writes evs = [?S, ?P]"
        "evs = pre @ Load STAR1 v # ?L @ replicate k (Status ?BTF False) @ [Status ?BTF True, ?P]"
        "v AND I2C_STAR1_TXE c \<noteq> 0"
      by (elim conjE exE)
    have "control_writes (pre @ Load STAR1 v # ?L @ replicate k (Status ?BTF False) @
          [Status ?BTF True, ?P]) = control_writes evs"
      by (rule arg_cong [OF a(3) [symmetric]])
    from this a(2) have "control_writes (pre @ Load STAR1 v # ?L @ replicate k (Status ?BTF False) @
          [Status ?BTF True, ?P]) = [?S, ?P]"
      by (rule trans)
    then have "control_writes pre = [?S]"
      by (rule tail)
    with a(3,4) have "\<exists>pre v k. evs = pre @ Load STAR1 v # ?L @ replicate k (Status ?BTF False) @
            [Status ?BTF True, ?P] \<and>
          v AND I2C_STAR1_TXE c \<noteq> 0 \<and> control_writes pre = [?S]"
      by (intro exI conjI)
    with a(1) show "data_writes evs = ?full \<and>
        (\<exists>pre v k. evs = pre @ Load STAR1 v # ?L @ replicate k (Status ?BTF False) @
            [Status ?BTF True, ?P] \<and>
          v AND I2C_STAR1_TXE c \<noteq> 0 \<and> control_writes pre = [?S])"
      by (rule conjI)
  qed
  with ext pre other show ?thesis
    by (intro exI [of _ evs] conjI)
qed

text \<open>Writing the bytes 1, 2, 3 to register \<open>0x10\<close> of a device that answers at once.\<close>

theorem i2c_write_order_witness:
  "i2c_write (example_defs 2) hw_device 1 0x51 0x10 (\<lambda>i. of_nat i + 1) 3 [] =
     (Some I2C_OK,
      [Load STAR2 0, SetBits CTLR1 0x100, Status 0x30001 True, Store DATAR 0x50,
        Status 0x70082 True, Store DATAR 0x10, Load STAR1 0xC0, Load STAR1 0xC0,
        BufLoad 0 1, Store DATAR 1, Load STAR1 0xC0, BufLoad 1 2, Store DATAR 2,
        Load STAR1 0xC0, BufLoad 2 3, Store DATAR 3, Status 0x70084 True,
        SetBits CTLR1 0x200]) \<and>
   (\<exists>evs. [Load STAR2 0, SetBits CTLR1 0x100, Status 0x30001 True, Store DATAR 0x50,
        Status 0x70082 True, Store DATAR 0x10, Load STAR1 0xC0, Load STAR1 0xC0,
        BufLoad 0 1, Store DATAR 1, Load STAR1 0xC0, BufLoad 1 2, Store DATAR 2,
        Load STAR1 0xC0, BufLoad 2 3, Store DATAR 3, Status 0x70084 True,
        SetBits CTLR1 0x200] = [] @ evs \<and>
      data_writes evs = [0x50, 0x10, 1, 2, 3] \<and>
      (\<exists>pre v k. evs = pre @ Load STAR1 v # [BufLoad 2 3, Store DATAR 3] @
          replicate k (Status 0x70084 False) @ [Status 0x70084 True, SetBits CTLR1 0x200] \<and>
        v AND 0x80 \<noteq> 0 \<and> control_writes pre = [SetBits CTLR1 0x100]))"
proof -
  have run: "i2c_write (example_defs 2) hw_device 1 0x51 0x10 (\<lambda>i. of_nat i + 1) 3 [] =
     (Some I2C_OK,
      [Load STAR2 0, SetBits CTLR1 0x100, Status 0x30001 True, Store DATAR 0x50,
        Status 0x70082 True, Store DATAR 0x10, Load STAR1 0xC0, Load STAR1 0xC0,
        BufLoad 0 1, Store DATAR 1, Load STAR1 0xC0, BufLoad 1 2, Store DATAR 2,
        Load STAR1 0xC0, BufLoad 2 3, Store DATAR 3, Status 0x70084 True,
        SetBits CTLR1 0x200])"
    by code_simp
  have t: "\<exists>evs. [Load STAR2 0, SetBits CTLR1 0x100, Status 0x30001 True, Store DATAR 0x50,
        Status 0x70082 True, Store DATAR 0x10, Load STAR1 0xC0, Load STAR1 0xC0,
        BufLoad 0 1, Store DATAR 1, Load STAR1 0xC0, BufLoad 1 2, Store DATAR 2,
        Load STAR1 0xC0, BufLoad 2 3, Store DATAR 3, Status 0x70084 True,
        SetBits CTLR1 0x200] = [] @ evs \<and>
      data_writes evs = [0x50, 0x10, 1, 2, 3] \<and>
      (\<exists>pre v k. evs = pre @ Load STAR1 v # [BufLoad 2 3, Store DATAR 3] @
          replicate k (Status 0x70084 False) @ [Status 0x70084 True, SetBits CTLR1 0x200] \<and>
        v AND 0x80 \<noteq> 0 \<and> control_writes pre = [SetBits CTLR1 0x100])"
    using i2c_write_order [OF run] by (simp add: example_defs_def)
  show ?thesis
    by (intro conjI run t)
qed



end
